theory Spec2Isabelle
  imports Complex_Main "HOL-Library.Monad_Syntax" "HOL-Library.Word"
begin

text \<open>
  A shallow embedding of \<^verbatim>\<open>libcongen.cc\<close> (congen 1.7).  The C++ type \<^verbatim>\<open>double\<close> is
  idealised as \<^typ>\<open>real\<close>: rounding, overflow, signed zeros, NaN and the infinities
  are outside the model.  Where C would produce NaN or an infinity (a division by
  zero, the square root of a negative number) the total functions of HOL return a
  conventional real number instead; no theorem below depends on such a value.
  The header \<^verbatim>\<open><Congen>\<close> that declares the index constants, \<^verbatim>\<open>year_t\<close>,
  \<^verbatim>\<open>Satellite\<close> and the class \<^verbatim>\<open>Constituent\<close> is not part of the sources at hand;
  what is taken from it is marked where it is introduced.
\<close>

section \<open>Time and calendar primitives\<close>

text \<open>
  \<^verbatim>\<open>Congen::time_t\<close> is \<^verbatim>\<open>int64_t\<close>: seconds since 1970-01-01 00:00 GMT.  The
  model keeps such values as \<^typ>\<open>int\<close> and writes the two's-complement wrap-around of
  every 64-bit operation out with \<open>int64\<close>.  \<^verbatim>\<open>Congen::year_t\<close> is an unsigned 16-bit
  type (the driver reads it with \<^verbatim>\<open>SCNu16\<close>); the assertions bound every year
  that is used to \<open>[1, 4001]\<close>, so years are natural numbers here.  An assertion
  that fails aborts the program: the functions return \<open>None\<close>.
\<close>

definition int64 :: "int \<Rightarrow> int" where
  "int64 x = signed_take_bit 63 x"

definition startYear :: "nat \<Rightarrow> int option" where
  "startYear year =
     (if \<not> 0 < year then None
      else if \<not> year \<le> 4001 then None
      else let y = int year - 1 in
        Some (int64 (int64 (- 62135596800 + int64 (y * 31536000))
                     + int64 ((y div 4 - y div 100 + y div 400) * 86400))))"

text \<open>C++ integer division truncates towards zero.\<close>

definition tdiv :: "int \<Rightarrow> int \<Rightarrow> int" where
  "tdiv a b = (if (a < 0) = (b < 0) then \<bar>a\<bar> div \<bar>b\<bar> else - (\<bar>a\<bar> div \<bar>b\<bar>))"

definition midYear :: "nat \<Rightarrow> int option" where
  "midYear year =
     (if \<not> 0 < year then None
      else if \<not> year \<le> 4000 then None
      else case startYear year of None \<Rightarrow> None
        | Some a \<Rightarrow> (case startYear (year + 1) of None \<Rightarrow> None
            | Some b \<Rightarrow> Some (tdiv (int64 (a + b)) 2)))"


section \<open>Degree-argument trigonometry\<close>

definition M_PI_180 :: real where "M_PI_180 = pi / 180"
definition M_180_PI :: real where "M_180_PI = 180 / pi"
definition hoursPerJulianCentury_double :: real where "hoursPerJulianCentury_double = 876600"
definition secondsPerJulianCentury_double :: real where
  "secondsPerJulianCentury_double = 3155760000"

definition sind :: "real \<Rightarrow> real" where "sind degrees = sin (degrees * M_PI_180)"
definition cosd :: "real \<Rightarrow> real" where "cosd degrees = cos (degrees * M_PI_180)"

definition asind :: "real \<Rightarrow> real option" where
  "asind x = (if x \<ge> - 1 \<and> x \<le> 1 then Some (M_180_PI * arcsin x) else None)"

definition acosd :: "real \<Rightarrow> real option" where
  "acosd x = (if x \<ge> - 1 \<and> x \<le> 1 then Some (M_180_PI * arccos x) else None)"

text \<open>The two-argument arc tangent of \<^verbatim>\<open>math.h\<close> on real arguments.\<close>

definition atan2 :: "real \<Rightarrow> real \<Rightarrow> real" where
  "atan2 y x =
     (if 0 < x then arctan (y / x)
      else if x < 0 then (if 0 \<le> y then arctan (y / x) + pi else arctan (y / x) - pi)
      else if 0 < y then pi / 2
      else if y < 0 then - (pi / 2)
      else 0)"

definition atan2d :: "real \<Rightarrow> real \<Rightarrow> real" where "atan2d y x = atan2 y x * M_180_PI"
definition tand :: "real \<Rightarrow> real" where "tand degrees = tan (degrees * M_PI_180)"
definition cotd :: "real \<Rightarrow> real" where "cotd degrees = 1 / tand degrees"

section \<open>Astronomical terms\<close>

definition Table_1_T :: "int \<Rightarrow> real" where
  "Table_1_T t = real_of_int (int64 (t - (- 2209032000))) / secondsPerJulianCentury_double"

text \<open>Element-wise \<^verbatim>\<open>valarray\<close> arithmetic and \<^verbatim>\<open>sum()\<close>.\<close>

definition vadd :: "real list \<Rightarrow> real list \<Rightarrow> real list" where
  "vadd xs ys = map2 (+) xs ys"

definition vmul :: "real list \<Rightarrow> real list \<Rightarrow> real list" where
  "vmul xs ys = map2 (*) xs ys"

definition vscale :: "real \<Rightarrow> real list \<Rightarrow> real list" where
  "vscale a xs = map ((*) a) xs"

definition vsum :: "real list \<Rightarrow> real" where
  "vsum xs = foldl (+) 0 xs"

text \<open>
  Taken from the header: \<open>numVterms = 6\<close> with the V terms in the order
  \<open>T, s, h, p, p\<^sub>1, c\<close> (the order of the rows of \<open>V_terms\<close>), \<open>numuterms = 7\<close> and
  \<open>numCompoundBases = 13\<close>.
\<close>

definition numVterms :: nat where "numVterms = 6"
definition numuterms :: nat where "numuterms = 7"
definition numCompoundBases :: nat where "numCompoundBases = 13"
definition p_index :: nat where "p_index = 3"

definition V_coeff0 :: "real list" where
  "V_coeff0 = [0, 270 + 26/60 + 14.72/3600, 279 + 41/60 + 48.04/3600,
               334 + 19/60 + 40.87/3600, 281 + 13/60 + 15/3600, 1]"
definition V_coeff1 :: "real list" where
  "V_coeff1 = [36525 * 360, 1336*360 + 1108411.2/3600, 129602768.13/3600,
               11*360 + 392515.94/3600, 6189.03/3600, 0]"
definition V_coeff2 :: "real list" where
  "V_coeff2 = [0, 9.09/3600, 1.089/3600, - 37.24/3600, 1.63/3600, 0]"
definition V_coeff3 :: "real list" where
  "V_coeff3 = [0, 0.0068/3600, 0, - 0.045/3600, 0.012/3600, 0]"

definition V_terms :: "int \<Rightarrow> nat \<Rightarrow> real list option" where
  "V_terms t derivative =
     (let t1 = Table_1_T t; t2 = t1 * t1 in
      if derivative = 0 then
        Some (vadd (vadd (vadd V_coeff0 (vscale t1 V_coeff1)) (vscale t2 V_coeff2))
                   (vscale (t2 * t1) V_coeff3))
      else if derivative = 1 then
        Some (vadd (vadd V_coeff1 (vscale (2 * t1) V_coeff2)) (vscale (3 * t2) V_coeff3))
      else None)"

definition my_coeff0 :: "real list" where
  "my_coeff0 = [259 + 10/60 + 57.12/3600, 334 + 19/60 + 40.87/3600, 281 + 13/60 + 15/3600]"
definition my_coeff1 :: "real list" where
  "my_coeff1 = [- (5*360 + 482912.63/3600), 11*360 + 392515.94/3600, 6189.03/3600]"
definition my_coeff2 :: "real list" where
  "my_coeff2 = [7.58/3600, - 37.24/3600, 1.63/3600]"
definition my_coeff3 :: "real list" where
  "my_coeff3 = [0.008/3600, - 0.045/3600, 0.012/3600]"

definition midyear_terms :: "int \<Rightarrow> nat \<Rightarrow> real list option" where
  "midyear_terms t derivative =
     (let t1 = Table_1_T t; t2 = t1 * t1 in
      if derivative = 0 then
        Some (vadd (vadd (vadd my_coeff0 (vscale t1 my_coeff1)) (vscale t2 my_coeff2))
                   (vscale (t2 * t1) my_coeff3))
      else if derivative = 1 then
        Some (vadd (vadd my_coeff1 (vscale (2 * t1) my_coeff2)) (vscale (3 * t2) my_coeff3))
      else None)"

definition midyear_N_index :: nat where "midyear_N_index = 0"
definition midyear_p_index :: nat where "midyear_p_index = 1"
definition midyear_p1_index :: nat where "midyear_p1_index = 2"

section \<open>Auxiliary angles\<close>

text \<open>
  The source names \<open>\<omega>\<close>, \<open>i\<close>, \<open>\<xi>\<close>, \<open>\<nu>\<close>, \<open>I\<close>, \<open>\<nu>\<Zprime>\<close>, \<open>2\<nu>\<Zprime>\<Zprime>\<close>, \<open>P\<close>, \<open>Q\<close>, \<open>Q\<^sub>u\<close>,
  \<open>Q\<^sub>a\<close>, \<open>R\<close>, \<open>R\<^sub>a\<close> are spelled \<open>omega\<close>, \<open>incl\<close>, \<open>xi_N\<close>, \<open>nu_N\<close>, \<open>I_N\<close>,
  \<open>nu_prime\<close>, \<open>two_nu_dprime\<close>, \<open>P_of\<close>, \<open>Q_of\<close>, \<open>Qu_of\<close>, \<open>Qa_of\<close>, \<open>R_of\<close>, \<open>Ra_of\<close>.
\<close>

definition omega :: real where "omega = 23 + 27/60 + 8.26/3600"
definition incl :: real where "incl = 5 + 8/60 + 43.3546/3600"

definition cos_I :: "real \<Rightarrow> real" where
  "cos_I N = cosd omega * cosd incl - sind omega * sind incl * cosd N"

definition sin_I :: "real \<Rightarrow> real" where
  "sin_I N = (let t = cos_I N in sqrt (1 - t * t))"

definition sin_nu :: "real \<Rightarrow> real" where
  "sin_nu N = sind incl * sind N / sin_I N"

definition cos_nu :: "real \<Rightarrow> real" where
  "cos_nu N = (let t = sin_nu N in sqrt (1 - t * t))"

definition sin_Omega :: "real \<Rightarrow> real" where
  "sin_Omega N = sind omega * sind N / sin_I N"

definition cos_Omega :: "real \<Rightarrow> real" where
  "cos_Omega N = cosd N * cos_nu N + sind N * sin_nu N * cosd omega"

definition xi_N :: "real \<Rightarrow> real" where
  "xi_N N = N - atan2d (sin_Omega N) (cos_Omega N)"

definition nu_N :: "real \<Rightarrow> real option" where
  "nu_N N = asind (sin_nu N)"

definition I_N :: "real \<Rightarrow> real option" where
  "I_N N = acosd (cos_I N)"

definition nu_prime :: "real \<Rightarrow> real option" where
  "nu_prime N = do {
     iN \<leftarrow> I_N N;
     let multiplier = sind (iN * 2);
     Some (atan2d (multiplier * sin_nu N) (multiplier * cos_nu N + 0.3347))
   }"

definition two_nu_dprime :: "real \<Rightarrow> real option" where
  "two_nu_dprime N = do {
     let term1 = sin_I N;
     nuN \<leftarrow> nu_N N;
     let term2 = nuN * 2;
     let term1 = term1 * term1;
     Some (atan2d (term1 * sind term2) (term1 * cosd term2 + 0.0727))
   }"

definition P_of :: "real \<Rightarrow> real \<Rightarrow> real" where "P_of p xi = p - xi"

definition Q_of :: "real \<Rightarrow> real" where
  "Q_of P = atan2d (0.483 * sind P) (cosd P)"

definition Qu_of :: "real \<Rightarrow> real \<Rightarrow> real" where "Qu_of P Q = P - Q"

definition Qa_of :: "real \<Rightarrow> real" where
  "Qa_of P = 1 / sqrt (2.31 + 1.435 * cosd (2 * P))"

definition R_of :: "real \<Rightarrow> real \<Rightarrow> real" where
  "R_of P I = (let cotI2 = cotd (I / 2) in
               atan2d (sind (2 * P)) (cotI2 * cotI2 / 6 - cosd (2 * P)))"

definition Ra_of :: "real \<Rightarrow> real \<Rightarrow> real" where
  "Ra_of P I = (let term = tand (I / 2); term = term * term in
                1 / sqrt (1 - 12 * term * cosd (2 * P) + 36 * term * term))"


section \<open>Node factors\<close>

text \<open>
  \<^verbatim>\<open>pow\<close> of \<^verbatim>\<open>math.h\<close> on finite arguments: \<open>pow(x, 0) = 1\<close> for every \<open>x\<close>.  For a
  negative base and a non-integral exponent C returns NaN, for which \<open>0\<close> stands here.
\<close>

definition pow_d :: "real \<Rightarrow> real \<Rightarrow> real" where
  "pow_d x y =
     (if y = 0 then 1
      else if 0 < x then x powr y
      else if x = 0 then 0
      else if y \<in> \<int> then (if even \<lfloor>y\<rfloor> then \<bar>x\<bar> powr y else - (\<bar>x\<bar> powr y))
      else 0)"

definition f73 :: "real \<Rightarrow> real" where
  "f73 I = (let term = sind I in (2/3 - term * term) / 0.5021)"

definition f74 :: "real \<Rightarrow> real" where
  "f74 I = (let term = sind I in term * term / 0.1578)"

definition f75 :: "real \<Rightarrow> real" where
  "f75 I = (let term = cosd (I / 2) in sind I * term * term / 0.38)"

definition f76 :: "real \<Rightarrow> real" where
  "f76 I = sind (2 * I) / 0.7214"

definition f77 :: "real \<Rightarrow> real" where
  "f77 I = (let term = sind (I / 2) in sind I * term * term / 0.0164)"

definition f78 :: "real \<Rightarrow> real" where
  "f78 I = (let term = cosd (I / 2); term = term * term in term * term / 0.9154)"

definition f79 :: "real \<Rightarrow> real" where
  "f79 I = (let term = sind I in term * term / 0.1565)"

definition f144 :: "real \<Rightarrow> real" where
  "f144 I = (let sterm = sind (I / 2); sterm = sterm * sterm; cterm = cosd (I / 2) in
             (1 - 10 * sterm + 15 * sterm * sterm) * cterm * cterm / 0.5873)"

definition f149 :: "real \<Rightarrow> real" where
  "f149 I = pow_d (cosd (I / 2)) 6 / 0.8758"

definition f206 :: "real \<Rightarrow> real \<Rightarrow> real" where
  "f206 I P = f75 I / Qa_of P"

definition f215 :: "real \<Rightarrow> real \<Rightarrow> real" where
  "f215 I P = f78 I / Ra_of P I"

definition f227 :: "real \<Rightarrow> real \<Rightarrow> real" where
  "f227 I nu = (let term = sind (2 * I) in
                sqrt (0.8965 * term * term + 0.6001 * term * cosd nu + 0.1006))"

definition f235 :: "real \<Rightarrow> real \<Rightarrow> real" where
  "f235 I nu = (let term = sind I; term = term * term in
                sqrt (19.0444 * term * term + 2.7702 * term * cosd (2 * nu) + 0.0981))"

text \<open>
  The dispatch \<^verbatim>\<open>f (f_formula, I, P, \<nu>)\<close>.  Its first parameter is a \<^verbatim>\<open>uint_fast8_t\<close>,
  an 8-bit unsigned integer on the platforms congen is built for.  The \<^verbatim>\<open>default\<close>
  branch is \<^verbatim>\<open>assert (0)\<close>.
\<close>

definition f_dispatch :: "8 word \<Rightarrow> real \<Rightarrow> real \<Rightarrow> real \<Rightarrow> real option" where
  "f_dispatch f_formula I P nu =
     (if f_formula = 1 then Some 1
      else if f_formula = 73 then Some (f73 I)
      else if f_formula = 74 then Some (f74 I)
      else if f_formula = 75 then Some (f75 I)
      else if f_formula = 76 then Some (f76 I)
      else if f_formula = 77 then Some (f77 I)
      else if f_formula = 78 then Some (f78 I)
      else if f_formula = 79 then Some (f79 I)
      else if f_formula = 144 then Some (f144 I)
      else if f_formula = 149 then Some (f149 I)
      else if f_formula = 206 then Some (f206 I P)
      else if f_formula = 215 then Some (f215 I P)
      else if f_formula = 227 then Some (f227 I nu)
      else if f_formula = 235 then Some (f235 I nu)
      else None)"

text \<open>The tags that have a \<^verbatim>\<open>case\<close> label in the dispatch.\<close>

definition known_tags :: "8 word set" where
  "known_tags = {1, 73, 74, 75, 76, 77, 78, 79, 144, 149, 206, 215, 227, 235}"

section \<open>Constituents\<close>

text \<open>
  The class \<^verbatim>\<open>Constituent\<close>: a name, a speed and the two year-indexed
  \<^verbatim>\<open>valarray\<close>s \<open>V\<^sub>o+u\<close> and \<open>f\<close>.
\<close>

record Constituent =
  c_name :: string
  c_speed :: real
  c_Vpu :: "real list"
  c_f :: "real list"

definition Constituent_default :: Constituent where
  "Constituent_default = \<lparr>c_name = ''default'', c_speed = 0, c_Vpu = [], c_f = []\<rparr>"

definition Constituent_zero :: "nat \<Rightarrow> Constituent" where
  "Constituent_zero numYears =
     \<lparr>c_name = ''zero'', c_speed = 0, c_Vpu = replicate numYears 0, c_f = replicate numYears 1\<rparr>"

text \<open>\<^verbatim>\<open>operator+=\<close>; its two assertions compare the lengths of the series.\<close>

definition plus_eq :: "Constituent \<Rightarrow> Constituent \<Rightarrow> Constituent option" where
  "plus_eq a x =
     (if length (c_Vpu a) \<noteq> length (c_Vpu x) then None
      else if length (c_f a) \<noteq> length (c_f x) then None
      else Some \<lparr>c_name = ''nameless'', c_speed = c_speed a + c_speed x,
                 c_Vpu = vadd (c_Vpu a) (c_Vpu x), c_f = vmul (c_f a) (c_f x)\<rparr>)"

text \<open>\<^verbatim>\<open>operator*=\<close> and the free \<^verbatim>\<open>operator* (double, const Constituent &)\<close>.\<close>

definition times_eq :: "Constituent \<Rightarrow> real \<Rightarrow> Constituent" where
  "times_eq a x =
     \<lparr>c_name = ''nameless'', c_speed = c_speed a * x,
      c_Vpu = map (\<lambda>v. v * x) (c_Vpu a), c_f = map (\<lambda>v. pow_d v \<bar>x\<bar>) (c_f a)\<rparr>"

definition times :: "real \<Rightarrow> Constituent \<Rightarrow> Constituent" where
  "times x y = times_eq y x"

subsection \<open>The Basic constructor\<close>

text \<open>
  The positions of the u terms.  The header that declares them is not among the
  sources; the positions are those that the sources use.  The coefficient sets of the
  Compound constructor are written in the order \<open>(\<xi>, \<nu>, \<nu>', 2\<nu>'', Q, R, Q\<^sub>u)\<close>: the set
  of \<open>L\<^sub>2\<close>, whose argument carries \<open>R\<close> (Table 8) and whose node factor is formula 215,
  has the coefficient \<open>- 1\<close> at position 5; \<open>M\<^sub>1-DUTCH\<close> carries \<open>Q\<^sub>u\<close> at position 6; and
  \<open>Q\<close>, the term in the argument of \<open>M\<^sub>1\<close> that the speed of the Basic constructor
  adds as its \<open>M\<^sub>1\<close> special case, has position 4.
\<close>

definition xi_index :: nat where "xi_index = 0"
definition nu_index :: nat where "nu_index = 1"
definition nu_prime_index :: nat where "nu_prime_index = 2"
definition two_nu_dprime_index :: nat where "two_nu_dprime_index = 3"
definition Q_index :: nat where "Q_index = 4"
definition R_index :: nat where "R_index = 5"
definition Qu_index :: nat where "Qu_index = 6"

text \<open>The body of the loop over the years: the pair \<open>(V\<^sub>o+u, f)\<close> of year \<open>y\<close>.\<close>

definition Basic_year :: "real list \<Rightarrow> real list \<Rightarrow> 8 word \<Rightarrow> nat \<Rightarrow> (real \<times> real) option" where
  "Basic_year V_coefficients u_coefficients f_formula y = do {
     t0 \<leftarrow> startYear y;
     t1 \<leftarrow> midYear y;
     let u_terms = replicate numuterms (0::real);
     midyear_terms_t1 \<leftarrow> midyear_terms t1 0;
     let N_t1 = midyear_terms_t1 ! midyear_N_index;
     let p_t1 = midyear_terms_t1 ! midyear_p_index;
     I_t1 \<leftarrow> I_N N_t1;
     let u_terms = u_terms[xi_index := xi_N N_t1];
     nu_t1 \<leftarrow> nu_N N_t1;
     let u_terms = u_terms[nu_index := nu_t1];
     nup \<leftarrow> nu_prime N_t1;
     let u_terms = u_terms[nu_prime_index := nup];
     nudp \<leftarrow> two_nu_dprime N_t1;
     let u_terms = u_terms[two_nu_dprime_index := nudp];
     let P_t1 = P_of p_t1 (u_terms ! xi_index);
     let u_terms = u_terms[Q_index := Q_of P_t1];
     let u_terms = u_terms[R_index := R_of P_t1 I_t1];
     let u_terms = u_terms[Qu_index := Qu_of P_t1 (u_terms ! Q_index)];
     V_t0 \<leftarrow> V_terms t0 0;
     fy \<leftarrow> f_dispatch f_formula I_t1 P_t1 (u_terms ! nu_index);
     Some (vsum (vmul V_t0 V_coefficients) + vsum (vmul u_terms u_coefficients), fy)
   }"

definition Basic_speed :: "real list \<Rightarrow> real list \<Rightarrow> nat \<Rightarrow> real option" where
  "Basic_speed V_coefficients u_coefficients epochForSpeed = do {
     t \<leftarrow> startYear epochForSpeed;
     speeds \<leftarrow> V_terms t 1;
     Some ((vsum (vmul speeds V_coefficients)
            + speeds ! p_index * u_coefficients ! Q_index) / hoursPerJulianCentury_double)
   }"

definition Basic ::
  "string \<Rightarrow> real list \<Rightarrow> real list \<Rightarrow> 8 word \<Rightarrow> nat \<Rightarrow> nat \<Rightarrow> nat \<Rightarrow> Constituent option" where
  "Basic name_in V_coefficients u_coefficients f_formula firstYear lastYear epochForSpeed =
     (if \<not> lastYear \<ge> firstYear then None
      else if \<not> firstYear > 0 then None
      else if \<not> lastYear \<le> 4000 then None
      else if \<not> epochForSpeed > 0 then None
      else if \<not> epochForSpeed \<le> 4000 then None
      else if length V_coefficients \<noteq> numVterms then None
      else if length u_coefficients \<noteq> numuterms then None
      else do {
        sp \<leftarrow> Basic_speed V_coefficients u_coefficients epochForSpeed;
        ys \<leftarrow> those (map (Basic_year V_coefficients u_coefficients f_formula)
                        [firstYear ..< Suc lastYear]);
        Some \<lparr>c_name = name_in, c_speed = sp, c_Vpu = map fst ys, c_f = map snd ys\<rparr>
      })"

subsection \<open>The Doodson constructor\<close>

text \<open>
  Modelled from the spec: the fields of \<^verbatim>\<open>struct Satellite\<close>, which the absent header
  declares: \<open>\<Delta>p\<close>, \<open>\<Delta>N\<close>, \<open>\<Delta>p\<^sub>1\<close> are small integers, \<open>\<alpha>\<close> is a phase offset in degrees
  and \<open>r\<close> an amplitude ratio.
\<close>

record Satellite =
  Dp :: int
  DN :: int
  Dp1 :: int
  alpha :: real
  r_ratio :: real

definition sat_step :: "real \<Rightarrow> real \<Rightarrow> real \<Rightarrow> real \<times> real \<Rightarrow> Satellite \<Rightarrow> real \<times> real" where
  "sat_step p_t1 N_t1 p1_t1 acc it =
     (let satangle = real_of_int (Dp it) * p_t1 + real_of_int (DN it) * N_t1
                     + real_of_int (Dp1 it) * p1_t1 + alpha it
      in (fst acc + r_ratio it * cosd satangle, snd acc + r_ratio it * sind satangle))"

definition Doodson_year :: "real list \<Rightarrow> Satellite list \<Rightarrow> nat \<Rightarrow> (real \<times> real) option" where
  "Doodson_year V_coefficients satellites y = do {
     t0 \<leftarrow> startYear y;
     t1 \<leftarrow> midYear y;
     midyear_terms_t1 \<leftarrow> midyear_terms t1 0;
     let N_t1 = midyear_terms_t1 ! midyear_N_index;
     let p_t1 = midyear_terms_t1 ! midyear_p_index;
     let p1_t1 = midyear_terms_t1 ! midyear_p1_index;
     let acc = foldl (sat_step p_t1 N_t1 p1_t1) (1, 0) satellites;
     let cossum = fst acc;
     let sinsum = snd acc;
     V_t0 \<leftarrow> V_terms t0 0;
     Some (vsum (vmul V_t0 V_coefficients) + atan2d sinsum cossum,
           sqrt (sinsum * sinsum + cossum * cossum))
   }"

definition Doodson_speed :: "real list \<Rightarrow> nat \<Rightarrow> real option" where
  "Doodson_speed V_coefficients epochForSpeed = do {
     t \<leftarrow> startYear epochForSpeed;
     speeds \<leftarrow> V_terms t 1;
     Some (vsum (vmul speeds V_coefficients) / hoursPerJulianCentury_double)
   }"

definition Doodson ::
  "string \<Rightarrow> real list \<Rightarrow> Satellite list \<Rightarrow> nat \<Rightarrow> nat \<Rightarrow> nat \<Rightarrow> Constituent option" where
  "Doodson name_in V_coefficients satellites firstYear lastYear epochForSpeed =
     (if \<not> lastYear \<ge> firstYear then None
      else if \<not> firstYear > 0 then None
      else if \<not> lastYear \<le> 4000 then None
      else if \<not> epochForSpeed > 0 then None
      else if \<not> epochForSpeed \<le> 4000 then None
      else if length V_coefficients \<noteq> numVterms then None
      else do {
        sp \<leftarrow> Doodson_speed V_coefficients epochForSpeed;
        ys \<leftarrow> those (map (Doodson_year V_coefficients satellites) [firstYear ..< Suc lastYear]);
        Some \<lparr>c_name = name_in, c_speed = sp, c_Vpu = map fst ys, c_f = map snd ys\<rparr>
      })"


subsection \<open>The Compound constructor\<close>

text \<open>
  The thirteen coefficient sets of the base constituents, in the order in which the
  constructor assigns them.  Modelled from the spec: the base indices \<^verbatim>\<open>O\<^sub>1_index\<close> \<dots>
  \<^verbatim>\<open>\<lambda>\<^sub>2_index\<close> of the absent header are \<open>0 \<dots> 12\<close> in the order of the compound-base
  set \<open>O\<^sub>1, K\<^sub>1, P\<^sub>1, M\<^sub>2, S\<^sub>2, N\<^sub>2, L\<^sub>2, K\<^sub>2, Q\<^sub>1, \<nu>\<^sub>2, S\<^sub>1, M\<^sub>1-DUTCH, \<lambda>\<^sub>2\<close>, so that the
  thirteen assignments fill the vector from front to back.  The names are UTF-8 byte
  strings.
\<close>

definition sub1 :: string where "sub1 = [CHR 0xE2, CHR 0x82, CHR 0x81]"
definition sub2 :: string where "sub2 = [CHR 0xE2, CHR 0x82, CHR 0x82]"

definition O1_index :: nat where "O1_index = 0"
definition K1_index :: nat where "K1_index = 1"
definition L2_index :: nat where "L2_index = 6"
definition M1_DUTCH_index :: nat where "M1_DUTCH_index = 11"

definition base_table :: "(string \<times> real list \<times> real list \<times> 8 word) list" where
  "base_table =
     [(''O'' @ sub1, [1, - 2, 1, 0, 0, 90], [2, - 1, 0, 0, 0, 0, 0], 75),
      (''K'' @ sub1, [1, 0, 1, 0, 0, - 90], [0, 0, - 1, 0, 0, 0, 0], 227),
      (''P'' @ sub1, [1, 0, - 1, 0, 0, 90], [0, 0, 0, 0, 0, 0, 0], 1),
      (''M'' @ sub2, [2, - 2, 2, 0, 0, 0], [2, - 2, 0, 0, 0, 0, 0], 78),
      (''S'' @ sub2, [2, 0, 0, 0, 0, 0], [0, 0, 0, 0, 0, 0, 0], 1),
      (''N'' @ sub2, [2, - 3, 2, 1, 0, 0], [2, - 2, 0, 0, 0, 0, 0], 78),
      (''L'' @ sub2, [2, - 1, 2, - 1, 0, 180], [2, - 2, 0, 0, 0, - 1, 0], 215),
      (''K'' @ sub2, [2, 0, 2, 0, 0, 0], [0, 0, 0, - 1, 0, 0, 0], 235),
      (''Q'' @ sub1, [1, - 3, 1, 1, 0, 90], [2, - 1, 0, 0, 0, 0, 0], 75),
      ([CHR 0xCE, CHR 0xBD] @ sub2, [2, - 3, 4, - 1, 0, 0], [2, - 2, 0, 0, 0, 0, 0], 78),
      (''S'' @ sub1, [1, 0, 0, 0, 0, 0], [0, 0, 0, 0, 0, 0, 0], 1),
      (''M'' @ sub1 @ ''-DUTCH'', [1, - 1, 1, 1, 0, - 90], [0, - 1, 0, 0, 0, 0, - 1], 206),
      ([CHR 0xCE, CHR 0xBB] @ sub2, [2, - 1, 0, 1, 0, 180], [2, - 2, 0, 0, 0, 0, 0], 78)]"

definition base_Basic ::
  "nat \<Rightarrow> nat \<Rightarrow> nat \<Rightarrow> string \<times> real list \<times> real list \<times> 8 word \<Rightarrow> Constituent option" where
  "base_Basic firstYear lastYear epochForSpeed b =
     (case b of (n, V, u, t) \<Rightarrow> Basic n V u t firstYear lastYear epochForSpeed)"

definition rebuild_terms :: "nat \<Rightarrow> nat \<Rightarrow> nat \<Rightarrow> Constituent list option" where
  "rebuild_terms firstYear lastYear epochForSpeed =
     those (map (base_Basic firstYear lastYear epochForSpeed) base_table)"

text \<open>
  The function-local statics: the cached triple of years and the vector \<open>terms\<close>.
  They are threaded through the constructor as an explicit state.
\<close>

record Cache =
  cached_years :: "nat \<times> nat \<times> nat"
  cached_terms :: "Constituent list"

definition Cache_initial :: Cache where
  "Cache_initial = \<lparr>cached_years = (0, 0, 0),
                     cached_terms = replicate numCompoundBases Constituent_default\<rparr>"

text \<open>The accumulation loop \<^verbatim>\<open>operator+= (coefficients[i] * terms[i])\<close>.\<close>

fun accumulate ::
  "Constituent \<Rightarrow> real list \<Rightarrow> Constituent list \<Rightarrow> nat list \<Rightarrow> Constituent option" where
  "accumulate this coefficients terms [] = Some this"
| "accumulate this coefficients terms (i # idx) =
     (case plus_eq this (times (coefficients ! i) (terms ! i)) of
        None \<Rightarrow> None
      | Some this' \<Rightarrow> accumulate this' coefficients terms idx)"

definition Compound ::
  "Cache \<Rightarrow> string \<Rightarrow> real list \<Rightarrow> nat \<Rightarrow> nat \<Rightarrow> nat \<Rightarrow> (Constituent \<times> Cache) option" where
  "Compound cache name_in coefficients firstYear lastYear epochForSpeed =
     (if \<not> lastYear \<ge> firstYear then None
      else if \<not> firstYear > 0 then None
      else if \<not> lastYear \<le> 4000 then None
      else if \<not> epochForSpeed > 0 then None
      else if \<not> epochForSpeed \<le> 4000 then None
      else if length coefficients \<noteq> numCompoundBases then None
      else do {
        cache' \<leftarrow>
          (if cached_years cache \<noteq> (firstYear, lastYear, epochForSpeed) then do {
             ts \<leftarrow> rebuild_terms firstYear lastYear epochForSpeed;
             Some \<lparr>cached_years = (firstYear, lastYear, epochForSpeed), cached_terms = ts\<rparr>
           } else Some cache);
        this \<leftarrow> accumulate (Constituent_zero (lastYear - firstYear + 1)) coefficients
                  (cached_terms cache') [0 ..< numCompoundBases];
        Some (this\<lparr>c_name := name_in\<rparr>, cache')
      })"

section \<open>Predicates used in the statements\<close>

text \<open>The years that pass the assertions at the head of the three constructors.\<close>

definition valid_years :: "nat \<Rightarrow> nat \<Rightarrow> nat \<Rightarrow> bool" where
  "valid_years firstYear lastYear epochForSpeed \<longleftrightarrow>
     firstYear \<le> lastYear \<and> 0 < firstYear \<and> lastYear \<le> 4000
     \<and> 0 < epochForSpeed \<and> epochForSpeed \<le> 4000"

text \<open>
  The invariant of the cache: it is in its initial state, whose triple no valid call
  matches, or it holds the base constituents of its triple of years.
\<close>

definition cache_inv :: "Cache \<Rightarrow> bool" where
  "cache_inv cache =
     (case cached_years cache of
        (a, b, c) \<Rightarrow> a = 0 \<or> rebuild_terms a b c = Some (cached_terms cache))"


section \<open>Output formatting\<close>

text \<open>
  The two formatting functions depend on features of \<^verbatim>\<open>double\<close> that the real
  numbers do not have, and the model of this section keeps them.  A \<^verbatim>\<open>double\<close> is its
  real value together with its sign bit, which differs from \<open>value < 0\<close> only at zero;
  the sign bit is carried where the source can see it, in the argument \<open>neg\<close> of the
  conversion.  The argument of the two functions is a real number, which stands for
  the \<^verbatim>\<open>double\<close> of that value, with \<open>+0\<close> for zero.

  \<^verbatim>\<open>fmod\<close> of \<^verbatim>\<open>math.h\<close>: the remainder has the sign of the dividend, also when it is
  zero.  It is exact in binary floating point.
\<close>

definition trunc :: "real \<Rightarrow> int" where
  "trunc r = (if 0 \<le> r then \<lfloor>r\<rfloor> else \<lceil>r\<rceil>)"

definition fmod :: "real \<Rightarrow> real \<Rightarrow> real" where
  "fmod x y = x - y * of_int (trunc (x / y))"

text \<open>
  \<^verbatim>\<open>printf\<close> with the conversion \<^verbatim>\<open>%*.*f\<close> (and \<^verbatim>\<open>% *.*f\<close> when \<open>space\<close> is set) of the
  \<^verbatim>\<open>double\<close> with the sign bit \<open>neg\<close> and the value \<open>x\<close>: the exact value rounded to \<open>prec\<close>
  decimals, ties to the even neighbour as the comment in the source says,
  right-justified in a field of \<open>width\<close> characters.  A set sign bit prints a minus
  sign, also before a zero; with the space flag a clear one prints a blank in its
  place.
\<close>

definition round_half_even :: "real \<Rightarrow> int" where
  "round_half_even s =
     (let r = \<lfloor>s\<rfloor>; d = s - of_int r in
      if d < 1/2 then r else if 1/2 < d then r + 1 else if even r then r else r + 1)"

definition digit_char :: "nat \<Rightarrow> char" where
  "digit_char d = ''0123456789'' ! d"

fun dec_digits :: "nat \<Rightarrow> string" where
  "dec_digits n = (if n < 10 then [digit_char n]
                   else dec_digits (n div 10) @ [digit_char (n mod 10)])"

declare dec_digits.simps [simp del]

definition sprintf_f :: "bool \<Rightarrow> nat \<Rightarrow> nat \<Rightarrow> bool \<Rightarrow> real \<Rightarrow> string" where
  "sprintf_f space width prec neg x =
     (let n = nat (round_half_even (\<bar>x\<bar> * 10 ^ prec));
          ip = dec_digits (n div 10 ^ prec);
          fp = dec_digits (n mod 10 ^ prec);
          body = ip @ (if prec = 0 then [] else ''.'' @ replicate (prec - length fp) CHR ''0'' @ fp);
          signed = (if neg then ''-'' else if space then '' '' else []) @ body
      in replicate (width - length signed) CHR '' '' @ signed)"




text \<open>
  The value that \<open>snormalize\<close> prints.  Its two additions are exact: their operands
  are \<^verbatim>\<open>double\<close>s within a factor of two of each other (a remainder in \<open>(-360, -180]\<close>
  or in \<open>(180, 360)\<close>, and 360).  \<open>snormalize\<close> does not call \<^verbatim>\<open>fabs\<close>: a zero remainder
  keeps the sign bit that \<^verbatim>\<open>fmod\<close> gave it, the sign of the argument.
\<close>

definition snormalize_degrees :: "real \<Rightarrow> real" where
  "snormalize_degrees degrees =
     (let degrees = fmod degrees 360 in
      if degrees \<le> - 180 then degrees + 360
      else if degrees > 180 then degrees - 360
      else degrees)"

definition snormalize_signbit :: "real \<Rightarrow> bool" where
  "snormalize_signbit degrees \<longleftrightarrow>
     snormalize_degrees degrees < 0 \<or> (snormalize_degrees degrees = 0 \<and> degrees < 0)"

definition snormalize :: "real \<Rightarrow> nat \<Rightarrow> string option" where
  "snormalize degrees decimals =
     (if \<not> (decimals > 0 \<and> decimals \<le> 20) then None
      else let temp = sprintf_f True (5 + decimals) decimals (snormalize_signbit degrees)
                        (snormalize_degrees degrees) in
        Some (if take 3 temp = ''-18'' then '' '' @ drop 1 temp else temp))"

section \<open>Input streams\<close>

text \<open>
  A \<^verbatim>\<open>std::istream\<close> over a fixed text: the characters not yet read and the state
  bits.  The operations follow the C++ standard library as congen uses it (GNU
  libstdc++, the classic locale): an operation on a stream that is not \<open>good\<close> sets
  \<open>failbit\<close> and reads nothing; reaching the end of the text sets \<open>eofbit\<close>.
\<close>

record istream =
  rdbuf :: string
  eofbit :: bool
  failbit :: bool
  badbit :: bool

definition good :: "istream \<Rightarrow> bool" where
  "good s \<longleftrightarrow> \<not> eofbit s \<and> \<not> failbit s \<and> \<not> badbit s"

definition fail :: "istream \<Rightarrow> bool" where
  "fail s \<longleftrightarrow> failbit s \<or> badbit s"

definition eof :: "istream \<Rightarrow> bool" where
  "eof s \<longleftrightarrow> eofbit s"

definition istringstream :: "string \<Rightarrow> istream" where
  "istringstream str = \<lparr>rdbuf = str, eofbit = False, failbit = False, badbit = False\<rparr>"

definition isspace :: "char \<Rightarrow> bool" where
  "isspace c \<longleftrightarrow> c \<in> set [CHR 0x20, CHR 0x09, CHR 0x0A, CHR 0x0B, CHR 0x0C, CHR 0x0D]"

definition isdigit :: "char \<Rightarrow> bool" where
  "isdigit c \<longleftrightarrow> c \<in> set ''0123456789''"

text \<open>
  \<^verbatim>\<open>getline (is, buf)\<close>: the characters up to the next newline, which is consumed and
  not stored.  When the text ends first, \<open>eofbit\<close> is set, and \<open>failbit\<close> too if
  nothing was read.
\<close>

definition getline :: "istream \<Rightarrow> string \<Rightarrow> istream \<times> string" where
  "getline s str =
     (if \<not> good s then (s\<lparr>failbit := True\<rparr>, str)
      else let line = takeWhile (\<lambda>c. c \<noteq> CHR 0x0A) (rdbuf s);
               rest = dropWhile (\<lambda>c. c \<noteq> CHR 0x0A) (rdbuf s)
           in case rest of
                [] \<Rightarrow> if line = [] then (s\<lparr>rdbuf := [], eofbit := True, failbit := True\<rparr>, [])
                      else (s\<lparr>rdbuf := [], eofbit := True\<rparr>, line)
              | _ # rest' \<Rightarrow> (s\<lparr>rdbuf := rest'\<rparr>, line))"

text \<open>
  The sentry of a formatted extraction: it skips white space; at the end of the
  text it sets \<open>eofbit\<close> and \<open>failbit\<close>.
\<close>

definition sentry :: "istream \<Rightarrow> istream \<times> bool" where
  "sentry s =
     (if \<not> good s then (s\<lparr>failbit := True\<rparr>, False)
      else let rest = dropWhile isspace (rdbuf s) in
        if rest = [] then (s\<lparr>rdbuf := [], eofbit := True, failbit := True\<rparr>, False)
        else (s\<lparr>rdbuf := rest\<rparr>, True))"

text \<open>\<^verbatim>\<open>is >> str\<close> for a \<^verbatim>\<open>std::string\<close>: the characters up to the next white space.\<close>

definition extract_string :: "istream \<Rightarrow> string \<Rightarrow> istream \<times> string" where
  "extract_string s str =
     (case sentry s of
        (s1, False) \<Rightarrow> (s1, str)
      | (s1, True) \<Rightarrow>
          (let tok = takeWhile (\<lambda>c. \<not> isspace c) (rdbuf s1);
               rest = dropWhile (\<lambda>c. \<not> isspace c) (rdbuf s1)
           in (s1\<lparr>rdbuf := rest, eofbit := (rest = [])\<rparr>, tok)))"

subsection \<open>Numbers\<close>

definition digit_value :: "char \<Rightarrow> nat" where
  "digit_value c = of_char c - 48"

definition digits_value :: "string \<Rightarrow> nat" where
  "digits_value ds = foldl (\<lambda>a c. 10 * a + digit_value c) 0 ds"

text \<open>An optional sign: whether it is a minus sign, and the rest.\<close>

definition scan_sign :: "string \<Rightarrow> bool \<times> string" where
  "scan_sign s =
     (case s of
        [] \<Rightarrow> (False, s)
      | c # cs \<Rightarrow> if c = CHR ''-'' then (True, cs)
                  else if c = CHR ''+'' then (False, cs) else (False, s))"

text \<open>
  The characters that \<^verbatim>\<open>num_get\<close> accumulates for a \<^verbatim>\<open>double\<close>: a sign, digits with at
  most one decimal point, and, once a digit has been seen, an exponent.  The
  conversion fails unless the mantissa has a digit and a started exponent has one;
  it fails too when the value rounds to an infinity.  The value is the exact decimal
  value.  The result is the value, if there is one, and the text left unread.
\<close>

definition scan_float :: "string \<Rightarrow> real option \<times> string" where
  "scan_float s =
     (case scan_sign s of (neg, s1) \<Rightarrow>
      let ip = takeWhile isdigit s1;
          s2 = dropWhile isdigit s1;
          dot = (s2 \<noteq> [] \<and> hd s2 = CHR ''.'');
          fp = (if dot then takeWhile isdigit (tl s2) else []);
          s3 = (if dot then dropWhile isdigit (tl s2) else s2);
          found_mantissa = (ip \<noteq> [] \<or> fp \<noteq> []);
          sci = (found_mantissa \<and> s3 \<noteq> [] \<and> (hd s3 = CHR ''e'' \<or> hd s3 = CHR ''E''))
      in case (if sci then scan_sign (tl s3) else (False, s3)) of (eneg, s4) \<Rightarrow>
      let ed = (if sci then takeWhile isdigit s4 else []);
          s5 = (if sci then dropWhile isdigit s4 else s4);
          ex = (if eneg then - int (digits_value ed) else int (digits_value ed))
               - int (length fp);
          m = real (digits_value (ip @ fp)) * 10 powi ex
      in (if found_mantissa \<and> (sci \<longrightarrow> ed \<noteq> []) \<and> m < 2 ^ 1024 - 2 ^ 970
          then Some (if neg then - m else m) else None, s5))"

definition extract_double :: "istream \<Rightarrow> real \<Rightarrow> istream \<times> real" where
  "extract_double s old =
     (case sentry s of
        (s1, False) \<Rightarrow> (s1, old)
      | (s1, True) \<Rightarrow>
          (case scan_float (rdbuf s1) of
             (r, rest) \<Rightarrow>
               (s1\<lparr>rdbuf := rest, eofbit := (rest = []), failbit := (r = None)\<rparr>,
                case r of None \<Rightarrow> 0 | Some v \<Rightarrow> v)))"

text \<open>
  Integers: a sign and decimal digits.  The extraction fails without a digit or
  when the value does not fit; a negative \<^verbatim>\<open>unsigned\<close> wraps around.  \<^verbatim>\<open>unsigned\<close> and
  \<^verbatim>\<open>int\<close> have 32 bits.
\<close>

definition extract_unsigned :: "istream \<Rightarrow> nat \<Rightarrow> istream \<times> nat" where
  "extract_unsigned s old =
     (case sentry s of
        (s1, False) \<Rightarrow> (s1, old)
      | (s1, True) \<Rightarrow>
          (case scan_sign (rdbuf s1) of
             (neg, t) \<Rightarrow>
               let ds = takeWhile isdigit t;
                   rest = dropWhile isdigit t;
                   n = digits_value ds;
                   bad = (ds = [] \<or> n > 2 ^ 32 - 1)
               in (s1\<lparr>rdbuf := rest, eofbit := (rest = []), failbit := bad\<rparr>,
                   if ds = [] then 0 else if n > 2 ^ 32 - 1 then 2 ^ 32 - 1
                   else if neg then (2 ^ 32 - n) mod 2 ^ 32 else n)))"

definition extract_int :: "istream \<Rightarrow> int \<Rightarrow> istream \<times> int" where
  "extract_int s old =
     (case sentry s of
        (s1, False) \<Rightarrow> (s1, old)
      | (s1, True) \<Rightarrow>
          (case scan_sign (rdbuf s1) of
             (neg, t) \<Rightarrow>
               let ds = takeWhile isdigit t;
                   rest = dropWhile isdigit t;
                   n = int (digits_value ds);
                   lim = (if neg then 2 ^ 31 else 2 ^ 31 - 1);
                   bad = (ds = [] \<or> n > lim)
               in (s1\<lparr>rdbuf := rest, eofbit := (rest = []), failbit := bad\<rparr>,
                   if ds = [] then 0 else if n > lim then (if neg then - (2 ^ 31) else 2 ^ 31 - 1)
                   else if neg then - n else n)))"

section \<open>The catalog parser\<close>

text \<open>
  What a record of the catalog carries once its fields are read.  The f-tag of a
  Basic record is the \<^verbatim>\<open>unsigned\<close> that was read.
\<close>

datatype record_data =
    BasicRec string "real list" "real list" nat
  | DoodsonRec string "real list" "Satellite list"
  | CompoundRec string "real list"

text \<open>
  The result of reading one record: the line number to return, or the input stream
  and the line count after the record, with the record.
\<close>

datatype read_result = Malformed nat | Parsed istream nat record_data

text \<open>
  The loops \<^verbatim>\<open>iss >> coefficients[i]; if (!iss.good()) return lineno;\<close> of the Basic
  and Doodson branches; \<open>None\<close> stands for the return.
\<close>

fun read_coefficients :: "nat \<Rightarrow> istream \<Rightarrow> (istream \<times> real list) option" where
  "read_coefficients 0 iss = Some (iss, [])"
| "read_coefficients (Suc k) iss =
     (case extract_double iss 0 of
        (iss1, v) \<Rightarrow>
          if \<not> good iss1 then None
          else case read_coefficients k iss1 of
                 None \<Rightarrow> None
               | Some (iss2, vs) \<Rightarrow> Some (iss2, v # vs))"

definition read_Basic :: "istream \<Rightarrow> nat \<Rightarrow> string \<Rightarrow> istream \<Rightarrow> read_result" where
  "read_Basic is lineno name iss =
     (case read_coefficients numVterms iss of
        None \<Rightarrow> Malformed lineno
      | Some (iss1, V_coefficients) \<Rightarrow>
          (case read_coefficients 6 iss1 of
             None \<Rightarrow> Malformed lineno
           | Some (iss2, u6) \<Rightarrow>
               (case extract_unsigned iss2 0 of
                  (iss3, f_formula) \<Rightarrow>
                    if fail iss3 then Malformed lineno
                    else Parsed is lineno
                      (BasicRec name V_coefficients (u6 @ replicate (numuterms - 6) 0) f_formula))))"

text \<open>
  One pass through the body of the satellite loop after the line has been
  refilled: \<open>Retry\<close> is the \<^verbatim>\<open>continue\<close> at the end of a line, \<open>Bad\<close> a
  \<^verbatim>\<open>return lineno\<close>, \<open>Counted\<close> the \<^verbatim>\<open>++i\<close> with the satellite that is stored, if any.
\<close>

datatype block = Retry istream | Bad | Counted istream "Satellite option"

definition read_block :: "istream \<Rightarrow> block" where
  "read_block iss =
     (case extract_int iss 0 of (iss1, dp) \<Rightarrow>
      if fail iss1 then (if eof iss1 then Retry iss1 else Bad)
      else case extract_int iss1 0 of (iss2, dn) \<Rightarrow>
      if \<not> good iss2 then Bad
      else case extract_int iss2 0 of (iss3, dp1) \<Rightarrow>
      if \<not> good iss3 then Bad
      else case extract_double iss3 0 of (iss4, al) \<Rightarrow>
      if \<not> good iss4 then Bad
      else case extract_string iss4 [] of (iss5, tempr) \<Rightarrow>
      if fail iss5 then Bad
      else case extract_double (istringstream tempr) 0 of (temprs, r) \<Rightarrow>
      if fail temprs then Bad
      else if CHR ''R'' \<in> set tempr then Counted iss5 None
      else Counted iss5
             (Some \<lparr>Dp = dp, DN = - dn, Dp1 = dp1, alpha = al * 360, r_ratio = r\<rparr>))"

text \<open>The head of the loop body: a line that is used up is replaced by the next one.\<close>

definition refill :: "istream \<Rightarrow> istream \<Rightarrow> nat \<Rightarrow> (istream \<times> istream \<times> nat) option" where
  "refill is iss lineno =
     (if eof iss then
        (case getline is [] of
           (is1, buf) \<Rightarrow> if fail is1 then None
                          else Some (is1, istringstream buf, lineno + 1))
      else Some (is, iss, lineno))"

datatype sat_result = SatMalformed nat | SatDone istream nat "Satellite list"

lemma length_takeWhile_dropWhile:
  "length (takeWhile P xs) + length (dropWhile P xs) = length xs"
  by (induction xs) auto

lemma getline_shorter:
  assumes g: "getline s str = (s1, l)" and nf: "\<not> fail s1"
  shows "length (rdbuf s1) < length (rdbuf s)"
proof -
  let ?p = "\<lambda>c. c \<noteq> CHR 0x0A"
  let ?line = "takeWhile ?p (rdbuf s)"
  let ?rest = "dropWhile ?p (rdbuf s)"
  have len: "length (rdbuf s) = length ?line + length ?rest"
    by (simp only: length_takeWhile_dropWhile)
  have gs: "good s"
  proof (rule ccontr)
    assume "\<not> good s"
    then have "s1 = s\<lparr>failbit := True\<rparr>" using g by (simp add: getline_def)
    then show False using nf by (simp add: fail_def)
  qed
  show ?thesis
  proof (cases ?rest)
    case Nil
    show ?thesis
    proof (cases "?line = []")
      case True
      then have "s1 = s\<lparr>rdbuf := [], eofbit := True, failbit := True\<rparr>"
        using g gs Nil by (simp add: getline_def Let_def)
      then show ?thesis using nf by (simp add: fail_def)
    next
      case False
      then have "s1 = s\<lparr>rdbuf := [], eofbit := True\<rparr>"
        using g gs Nil by (simp add: getline_def Let_def)
      then show ?thesis using False len by simp
    qed
  next
    case (Cons c rest')
    then have "s1 = s\<lparr>rdbuf := rest'\<rparr>"
      using g gs by (simp add: getline_def Let_def)
    then show ?thesis using len Cons by simp
  qed
qed

lemma read_block_Retry: "read_block iss = Retry iss2 \<Longrightarrow> eof iss2"
  by (auto simp: read_block_def split: prod.splits if_splits)

function sat_loop ::
  "nat \<Rightarrow> nat \<Rightarrow> istream \<Rightarrow> istream \<Rightarrow> nat \<Rightarrow> Satellite list \<Rightarrow> sat_result" where
  "sat_loop numsats i is iss lineno satellites =
     (if \<not> i < numsats then SatDone is lineno satellites
      else case refill is iss lineno of
             None \<Rightarrow> SatMalformed (lineno + 1)
           | Some (is1, iss1, lineno1) \<Rightarrow>
               (case read_block iss1 of
                  Retry iss2 \<Rightarrow> sat_loop numsats i is1 iss2 lineno1 satellites
                | Bad \<Rightarrow> SatMalformed lineno1
                | Counted iss2 so \<Rightarrow>
                    sat_loop numsats (i + 1) is1 iss2 lineno1
                      (case so of None \<Rightarrow> satellites | Some s \<Rightarrow> satellites @ [s])))"
  by pat_completeness auto
termination
proof (relation "inv_image (less_than <*lex*> less_than <*lex*> less_than)
    (\<lambda>(numsats, i, is, iss, lineno, satellites).
       (numsats - i, length (rdbuf is), if eof iss then 0 else Suc 0))", goal_cases)
  case 1
  then show ?case by (intro wf_inv_image wf_lex_prod wf_less_than)
next
  case (2 numsats i "is" iss lineno satellites x2 is1 y iss1 lineno1 iss2)
  then have r: "refill is iss lineno = Some (is1, iss1, lineno1)" by simp
  have e: "eof iss2" using 2 read_block_Retry by blast
  show ?case
  proof (cases "eof iss")
    case True
    then have "length (rdbuf is1) < length (rdbuf is)"
      using r getline_shorter [of "is" "[]"]
      by (auto simp: refill_def split: prod.splits if_splits)
    then show ?thesis by simp
  next
    case False
    then have "is1 = is" using r by (simp add: refill_def)
    then show ?thesis using False e by simp
  qed
next
  case (3 numsats i "is" iss lineno satellites x2 is1 y iss1 lineno1 iss2 so)
  then have "numsats - (i + 1) < numsats - i" by simp
  then show ?case by simp
qed

declare sat_loop.simps [simp del]

definition read_Doodson :: "istream \<Rightarrow> nat \<Rightarrow> string \<Rightarrow> istream \<Rightarrow> read_result" where
  "read_Doodson is lineno name iss =
     (case read_coefficients numVterms iss of
        None \<Rightarrow> Malformed lineno
      | Some (iss1, V_coefficients) \<Rightarrow>
          (case extract_unsigned iss1 0 of
             (iss2, numsats) \<Rightarrow>
               if fail iss2 then Malformed lineno
               else case sat_loop numsats 0 is iss2 lineno [] of
                      SatMalformed n \<Rightarrow> Malformed n
                    | SatDone is1 lineno1 satellites \<Rightarrow>
                        Parsed is1 lineno1 (DoodsonRec name V_coefficients satellites)))"

text \<open>
  The Compound loop \<^verbatim>\<open>iss >> coefficients[i]; if (iss.fail()) { coefficients[i] = 0;
  break; }\<close> over the indices \<open>idx\<close>.
\<close>

fun compound_loop :: "nat list \<Rightarrow> istream \<Rightarrow> real list \<Rightarrow> real list" where
  "compound_loop [] iss coefficients = coefficients"
| "compound_loop (i # idx) iss coefficients =
     (case extract_double iss (coefficients ! i) of
        (iss1, v) \<Rightarrow>
          if fail iss1 then coefficients[i := 0]
          else compound_loop idx iss1 (coefficients[i := v]))"

definition read_Compound :: "istream \<Rightarrow> nat \<Rightarrow> string \<Rightarrow> istream \<Rightarrow> read_result" where
  "read_Compound is lineno name iss =
     Parsed is lineno
       (CompoundRec name
          (compound_loop [0 ..< numCompoundBases] iss (replicate numCompoundBases 0)))"

text \<open>
  The part of the loop body that reads a record from the line \<open>buf\<close>; a Doodson
  record may read more lines from \<open>is\<close>.
\<close>

definition read_record :: "istream \<Rightarrow> nat \<Rightarrow> string \<Rightarrow> read_result" where
  "read_record is lineno buf =
     (case extract_string (istringstream buf) [] of (iss1, name) \<Rightarrow>
      case extract_string iss1 [] of (iss, kind) \<Rightarrow>
      if \<not> good iss then Malformed lineno
      else if kind = ''Basic'' then read_Basic is lineno name iss
      else if kind = ''Doodson'' then read_Doodson is lineno name iss
      else if kind = ''Compound'' then read_Compound is lineno name iss
      else Malformed lineno)"

text \<open>
  The constructor call of a record.  The \<^verbatim>\<open>unsigned\<close> f-tag is converted to the
  8-bit parameter of the Basic constructor.  \<open>None\<close> is a failed assertion.
\<close>

definition construct ::
  "Cache \<Rightarrow> record_data \<Rightarrow> nat \<Rightarrow> nat \<Rightarrow> nat \<Rightarrow> (Constituent \<times> Cache) option" where
  "construct cache r firstYear lastYear epochForSpeed =
     (case r of
        BasicRec name V u f_formula \<Rightarrow>
          map_option (\<lambda>c. (c, cache))
            (Basic name V u (word_of_nat f_formula) firstYear lastYear epochForSpeed)
      | DoodsonRec name V satellites \<Rightarrow>
          map_option (\<lambda>c. (c, cache))
            (Doodson name V satellites firstYear lastYear epochForSpeed)
      | CompoundRec name coefficients \<Rightarrow>
          Compound cache name coefficients firstYear lastYear epochForSpeed)"

text \<open>
  The result of \<open>parseLegacyInput\<close>: the number it returns together with the vector
  of constituents and the cache as it leaves them, or an abort on a failed
  assertion.  The line counter is an \<^verbatim>\<open>unsigned\<close>; it is a natural number here (it
  would wrap only after \<open>2\<^sup>3\<^sup>2\<close> lines).
\<close>

datatype outcome = Returned nat "Constituent list" Cache | Aborted

lemma refill_length:
  "refill is iss lineno = Some (is1, iss1, lineno1) \<Longrightarrow>
     length (rdbuf is1) \<le> length (rdbuf is) \<and> lineno \<le> lineno1"
  using getline_shorter [of "is" "[]"]
  by (auto simp: refill_def split: prod.splits if_splits dest!: less_imp_le)

lemma sat_loop_length:
  "sat_loop numsats i is iss lineno sats = SatDone is' lineno' sats' \<Longrightarrow>
     length (rdbuf is') \<le> length (rdbuf is) \<and> lineno \<le> lineno'"
proof (induction numsats i "is" iss lineno sats rule: sat_loop.induct)
  case (1 numsats i "is" iss lineno satellites)
  show ?case
  proof (cases "i < numsats")
    case False
    then show ?thesis using "1.prems" by (simp add: sat_loop.simps)
  next
    case True
    from "1.prems" True obtain is1 iss1 lineno1 where
      r: "refill is iss lineno = Some (is1, iss1, lineno1)"
      by (subst (asm) sat_loop.simps) (auto split: option.splits)
    note rl = refill_length [OF r]
    have nn: "\<not> \<not> i < numsats" using True by simp
    show ?thesis
    proof (cases "read_block iss1")
      case (Retry iss2)
      then have "sat_loop numsats i is1 iss2 lineno1 satellites = SatDone is' lineno' sats'"
        using "1.prems" True r by (subst (asm) sat_loop.simps) simp
      from "1.IH"(1) [OF nn r refl refl Retry this] rl show ?thesis by simp
    next
      case Bad
      then show ?thesis using "1.prems" True r by (subst (asm) sat_loop.simps) simp
    next
      case (Counted iss2 so)
      then have "sat_loop numsats (i + 1) is1 iss2 lineno1
          (case so of None \<Rightarrow> satellites | Some s \<Rightarrow> satellites @ [s])
          = SatDone is' lineno' sats'"
        using "1.prems" True r by (subst (asm) sat_loop.simps) simp
      from "1.IH"(2) [OF nn r refl refl Counted this] rl show ?thesis by simp
    qed
  qed
qed

lemma read_record_length:
  "read_record is lineno buf = Parsed is' lineno' r \<Longrightarrow>
     length (rdbuf is') \<le> length (rdbuf is) \<and> lineno \<le> lineno'"
  using sat_loop_length
  by (auto simp: read_record_def read_Basic_def read_Doodson_def read_Compound_def
      split: prod.splits if_splits option.splits sat_result.splits)

text \<open>The \<^verbatim>\<open>while (is.good())\<close> loop, entered with the line count \<open>lineno\<close>.\<close>

function main_loop ::
  "nat \<Rightarrow> nat \<Rightarrow> nat \<Rightarrow> istream \<Rightarrow> nat \<Rightarrow> Constituent list \<Rightarrow> Cache \<Rightarrow> outcome" where
  "main_loop firstYear lastYear epochForSpeed is lineno constituents cache =
     (if \<not> good is then Returned 0 constituents cache
      else case getline is [] of
        (is1, buf) \<Rightarrow>
          if fail is1 then Returned 0 constituents cache
          else if buf = [] then
            main_loop firstYear lastYear epochForSpeed is1 (lineno + 1) constituents cache
          else if hd buf = CHR ''#'' then
            main_loop firstYear lastYear epochForSpeed is1 (lineno + 1) constituents cache
          else case read_record is1 (lineno + 1) buf of
                 Malformed n \<Rightarrow> Returned n constituents cache
               | Parsed is2 lineno2 r \<Rightarrow>
                   (case construct cache r firstYear lastYear epochForSpeed of
                      None \<Rightarrow> Aborted
                    | Some (c, cache') \<Rightarrow>
                        main_loop firstYear lastYear epochForSpeed is2 lineno2
                          (constituents @ [c]) cache'))"
  by pat_completeness auto
termination
proof (relation "measure (\<lambda>(fy, ly, e, is, lineno, cs, cache). length (rdbuf is))", goal_cases)
  case 1
  then show ?case by simp
next
  case 2
  then show ?case by (auto dest!: getline_shorter [OF sym])
next
  case 3
  then show ?case by (auto dest!: getline_shorter [OF sym])
next
  case 4
  then show ?case
    by (auto dest!: getline_shorter [OF sym] read_record_length)
qed

declare main_loop.simps [simp del]

definition parseLegacyInput ::
  "istream \<Rightarrow> nat \<Rightarrow> nat \<Rightarrow> nat \<Rightarrow> Constituent list \<Rightarrow> Cache \<Rightarrow> outcome" where
  "parseLegacyInput is firstYear lastYear epochForSpeed constituents cache =
     (if \<not> good is then Returned 1 constituents cache
      else main_loop firstYear lastYear epochForSpeed is 0 constituents cache)"

section \<open>The records of an input\<close>

text \<open>
  The loop of \<open>parseLegacyInput\<close> with the constructor calls left out: the records
  that are read, in order, up to the first one that is malformed, and the line number
  that the loop has reached there (\<open>None\<close> when the input ends first).
\<close>

function records_read :: "istream \<Rightarrow> nat \<Rightarrow> record_data list \<times> nat option" where
  "records_read is lineno =
     (if \<not> good is then ([], None)
      else case getline is [] of
        (is1, buf) \<Rightarrow>
          if fail is1 then ([], None)
          else if buf = [] then records_read is1 (lineno + 1)
          else if hd buf = CHR ''#'' then records_read is1 (lineno + 1)
          else case read_record is1 (lineno + 1) buf of
                 Malformed n \<Rightarrow> ([], Some n)
               | Parsed is2 lineno2 r \<Rightarrow>
                   (case records_read is2 lineno2 of (rs, k) \<Rightarrow> (r # rs, k)))"
  by pat_completeness auto
termination
proof (relation "measure (\<lambda>(is, lineno). length (rdbuf is))", goal_cases)
  case 1
  then show ?case by simp
next
  case 2
  then show ?case by (auto dest!: getline_shorter [OF sym])
next
  case 3
  then show ?case by (auto dest!: getline_shorter [OF sym])
next
  case 4
  then show ?case
    by (auto dest!: getline_shorter [OF sym] read_record_length)
qed

declare records_read.simps [simp del]

text \<open>The constructor calls for a list of records, in order, each with the cache that
  the one before has left.\<close>

fun construct_all ::
  "Cache \<Rightarrow> record_data list \<Rightarrow> nat \<Rightarrow> nat \<Rightarrow> nat \<Rightarrow> (Constituent list \<times> Cache) option" where
  "construct_all cache [] fy ly e = Some ([], cache)"
| "construct_all cache (r # rs) fy ly e =
     (case construct cache r fy ly e of
        None \<Rightarrow> None
      | Some (c, cache') \<Rightarrow>
          (case construct_all cache' rs fy ly e of
             None \<Rightarrow> None
           | Some (cs, cache'') \<Rightarrow> Some (c # cs, cache'')))"

text \<open>The number that \<open>parseLegacyInput\<close> returns: 0, or the line of the malformed record.\<close>

definition returned_number :: "nat option \<Rightarrow> nat" where
  "returned_number ko = (case ko of None \<Rightarrow> 0 | Some k \<Rightarrow> k)"


text \<open>
  The sizes that the parser gives to the coefficient vectors of a record, and the
  records whose f-tag the dispatch does not know.
\<close>

fun record_shaped :: "record_data \<Rightarrow> bool" where
  "record_shaped (BasicRec name V u t) \<longleftrightarrow> length V = numVterms \<and> length u = numuterms"
| "record_shaped (DoodsonRec name V sats) \<longleftrightarrow> length V = numVterms"
| "record_shaped (CompoundRec name co) \<longleftrightarrow> length co = numCompoundBases"

fun unknown_tag :: "record_data \<Rightarrow> bool" where
  "unknown_tag (BasicRec name V u t) \<longleftrightarrow> (word_of_nat t :: 8 word) \<notin> known_tags"
| "unknown_tag (DoodsonRec name V sats) \<longleftrightarrow> False"
| "unknown_tag (CompoundRec name co) \<longleftrightarrow> False"
section \<open>Calendar arithmetic is exact\<close>

lemma int64_id: "- (2 ^ 63) \<le> x \<Longrightarrow> x < 2 ^ 63 \<Longrightarrow> int64 x = x"
  unfolding int64_def by (rule signed_take_bit_int_eq_self) simp_all

lemma startYear_exact:
  assumes "1 \<le> y" and "y \<le> 4001"
  shows "startYear y = Some (- 62135596800 + (int y - 1) * 31536000
           + ((int y - 1) div 4 - (int y - 1) div 100 + (int y - 1) div 400) * 86400)"
proof -
  define k where "k = int y - 1"
  have k: "0 \<le> k" "k \<le> 4000" using assms by (simp_all add: k_def)
  have d4: "0 \<le> k div 4" "k div 4 \<le> 1000" using k by simp_all
  have d100: "0 \<le> k div 100" "k div 100 \<le> 40" using k by simp_all
  have d400: "0 \<le> k div 400" "k div 400 \<le> 10" using k by simp_all
  have m1: "int64 (k * 31536000) = k * 31536000"
    using k by (intro int64_id) simp_all
  have m2: "int64 ((k div 4 - k div 100 + k div 400) * 86400)
            = (k div 4 - k div 100 + k div 400) * 86400"
    using d4 d100 d400 by (intro int64_id) simp_all
  have m3: "int64 (- 62135596800 + k * 31536000) = - 62135596800 + k * 31536000"
    using k by (intro int64_id) simp_all
  have m4: "int64 (- 62135596800 + k * 31536000 + (k div 4 - k div 100 + k div 400) * 86400)
            = - 62135596800 + k * 31536000 + (k div 4 - k div 100 + k div 400) * 86400"
    using k d4 d100 d400 by (intro int64_id) simp_all
  have c: "0 < y" "y \<le> 4001" using assms by simp_all
  show ?thesis
    unfolding startYear_def Let_def k_def [symmetric]
    by (simp only: c m1 m3 m2 m4 not_True_eq_False if_False)
qed

text \<open>
  C3.  For every year \<open>y\<close> in \<open>[1, 4001]\<close> the 64-bit computation of \<open>startYear\<close> never
  wraps and returns \<open>-62135596800 + (y-1)*31536000 + (\<lfloor>(y-1)/4\<rfloor> - \<lfloor>(y-1)/100\<rfloor> +
  \<lfloor>(y-1)/400\<rfloor>)*86400\<close>; in particular \<open>startYear 2000 = 946684800\<close>,
  \<open>startYear 1970 = 0\<close> and \<open>startYear 1 = -62135596800\<close>.
\<close>

theorem C3_startYear:
  "(\<forall>y. 1 \<le> y \<and> y \<le> 4001 \<longrightarrow>
      startYear y = Some (- 62135596800 + (int y - 1) * 31536000
        + ((int y - 1) div 4 - (int y - 1) div 100 + (int y - 1) div 400) * 86400))
   \<and> startYear 2000 = Some 946684800
   \<and> startYear 1970 = Some 0
   \<and> startYear 1 = Some (- 62135596800)"
  by (simp add: startYear_exact)

theorem C3_startYear_witness:
  "startYear 1999 = Some 915148800"
  using C3_startYear by simp

section \<open>The assertions of the numeric core cannot fail\<close>

text \<open>
  The arguments of \<open>acosd\<close> and \<open>asind\<close> stay in \<open>[-1, 1]\<close> and \<open>sin_I\<close> is never
  zero, for every \<open>N\<close>: \<open>1 - cos\<^sup>2 I\<close> is a sum of two squares that do not vanish together.
\<close>

lemma trig_square:
  fixes sw cw si ci sN cN :: real
  assumes "sw * sw + cw * cw = 1" "si * si + ci * ci = 1" "sN * sN + cN * cN = 1"
  shows "1 - (cw * ci - sw * si * cN) * (cw * ci - sw * si * cN)
         = si * sN * (si * sN) + (ci * sw + si * cw * cN) * (ci * sw + si * cw * cN)"
  using assms by algebra

lemma sind_cosd_square: "sind x * sind x + cosd x * cosd x = 1"
  unfolding sind_def cosd_def by (simp add: power2_eq_square [symmetric])

lemma one_minus_cos_I_sq:
  "1 - cos_I N * cos_I N = (sind incl * sind N) * (sind incl * sind N)
     + (cosd incl * sind omega + sind incl * cosd omega * cosd N)
       * (cosd incl * sind omega + sind incl * cosd omega * cosd N)"
  unfolding cos_I_def
  using trig_square [OF sind_cosd_square [of omega] sind_cosd_square [of incl]
      sind_cosd_square [of N]]
  by (simp add: mult.commute)

lemma sind_pos: "0 < x \<Longrightarrow> x < 180 \<Longrightarrow> 0 < sind x"
  unfolding sind_def M_PI_180_def by (rule sin_gt_zero) (simp_all add: field_simps)

lemma sind_add: "sind (a + b) = sind a * cosd b + cosd a * sind b"
  unfolding sind_def cosd_def by (simp add: distrib_right sin_add)

lemma sind_diff: "sind (a - b) = sind a * cosd b - cosd a * sind b"
  unfolding sind_def cosd_def by (simp add: left_diff_distrib sin_diff)

lemma sind_incl_pos: "0 < sind incl"
  by (rule sind_pos) (simp_all add: incl_def)

lemma sind_sum_pos: "0 < sind (omega + incl)"
  by (rule sind_pos) (simp_all add: incl_def omega_def)

lemma sind_dif_pos: "0 < sind (omega - incl)"
  by (rule sind_pos) (simp_all add: incl_def omega_def)

lemma one_minus_cos_I_sq_pos: "0 < 1 - cos_I N * cos_I N"
proof (cases "sind N = 0")
  case False
  then have "sind incl * sind N \<noteq> 0" using sind_incl_pos by simp
  then have "0 < (sind incl * sind N) * (sind incl * sind N)"
    using not_real_square_gt_zero [of "sind incl * sind N"] by blast
  moreover have "0 \<le> (cosd incl * sind omega + sind incl * cosd omega * cosd N)
       * (cosd incl * sind omega + sind incl * cosd omega * cosd N)" by simp
  ultimately show ?thesis unfolding one_minus_cos_I_sq by linarith
next
  case True
  then have "cosd N * cosd N = 1" using sind_cosd_square [of N] by simp
  then have "cosd N = 1 \<or> cosd N = - 1"
    by (metis mult_minus_left square_eq_iff mult.right_neutral)
  then have "cosd incl * sind omega + sind incl * cosd omega * cosd N \<noteq> 0"
  proof
    assume "cosd N = 1"
    then show ?thesis using sind_sum_pos by (simp add: sind_add mult.commute)
  next
    assume "cosd N = - 1"
    then show ?thesis using sind_dif_pos by (simp add: sind_diff mult.commute)
  qed
  then have "0 < (cosd incl * sind omega + sind incl * cosd omega * cosd N)
       * (cosd incl * sind omega + sind incl * cosd omega * cosd N)"
    using not_real_square_gt_zero
      [of "cosd incl * sind omega + sind incl * cosd omega * cosd N"] by blast
  then show ?thesis unfolding one_minus_cos_I_sq using True by simp
qed

lemma cos_I_range: "- 1 < cos_I N \<and> cos_I N < 1"
proof -
  have "cos_I N * cos_I N < 1" using one_minus_cos_I_sq_pos [of N] by simp
  then have "(cos_I N)\<^sup>2 < 1" by (simp add: power2_eq_square)
  then have "\<bar>cos_I N\<bar> < 1" by (simp only: abs_square_less_1)
  then show ?thesis by (simp add: abs_less_iff)
qed

lemma sin_I_pos: "0 < sin_I N"
  unfolding sin_I_def Let_def using one_minus_cos_I_sq_pos [of N] by simp

lemma sin_I_square: "sin_I N * sin_I N = 1 - cos_I N * cos_I N"
  unfolding sin_I_def Let_def using one_minus_cos_I_sq_pos [of N] by simp

lemma sin_nu_range: "- 1 \<le> sin_nu N \<and> sin_nu N \<le> 1"
proof -
  let ?a = "sind incl * sind N"
  have "?a * ?a \<le> sin_I N * sin_I N"
    unfolding sin_I_square one_minus_cos_I_sq by simp
  then have "\<bar>?a\<bar> \<le> \<bar>sin_I N\<bar>"
    by (simp add: abs_le_square_iff power2_eq_square)
  then have "\<bar>?a\<bar> \<le> sin_I N" using sin_I_pos [of N] by simp
  then have "- sin_I N \<le> ?a" "?a \<le> sin_I N" by linarith+
  then show ?thesis
    unfolding sin_nu_def using sin_I_pos [of N]
    by (simp add: pos_divide_le_eq pos_le_divide_eq)
qed

lemma I_N_total: "\<exists>v. I_N N = Some v"
  unfolding I_N_def acosd_def using cos_I_range [of N] by simp

lemma nu_N_total: "\<exists>v. nu_N N = Some v"
  unfolding nu_N_def asind_def using sin_nu_range [of N] by simp

lemma those_map_Some:
  "those (map g xs) = Some ys \<Longrightarrow>
     length ys = length xs \<and> (\<forall>k<length xs. g (xs ! k) = Some (ys ! k))"
proof (induction xs arbitrary: ys)
  case Nil
  then show ?case by simp
next
  case (Cons x xs)
  from Cons.prems obtain v vs where v: "g x = Some v" and vs: "those (map g xs) = Some vs"
    and ys: "ys = v # vs"
    by (auto split: option.splits)
  from Cons.IH [OF vs] show ?case using v ys by (auto simp: nth_Cons split: nat.splits)
qed

lemma those_map_total:
  "(\<And>x. x \<in> set xs \<Longrightarrow> \<exists>v. g x = Some v) \<Longrightarrow> \<exists>ys. those (map g xs) = Some ys"
proof (induction xs)
  case Nil
  then show ?case by simp
next
  case (Cons x xs)
  then obtain v where "g x = Some v" by fastforce
  moreover from Cons obtain vs where "those (map g xs) = Some vs" by fastforce
  ultimately show ?case by simp
qed

lemma startYear_total: "1 \<le> y \<Longrightarrow> y \<le> 4001 \<Longrightarrow> \<exists>t. startYear y = Some t"
  by (simp add: startYear_exact)

lemma midYear_total: "1 \<le> y \<Longrightarrow> y \<le> 4000 \<Longrightarrow> \<exists>t. midYear y = Some t"
  using startYear_total [of y] startYear_total [of "y + 1"]
  by (auto simp: midYear_def)

lemma V_terms_length: "V_terms t d = Some v \<Longrightarrow> length v = numVterms"
  by (auto simp: V_terms_def Let_def vadd_def vscale_def numVterms_def
      V_coeff0_def V_coeff1_def V_coeff2_def V_coeff3_def split: if_splits)

lemma V_terms_total: "d = 0 \<or> d = 1 \<Longrightarrow> \<exists>v. V_terms t d = Some v"
  by (auto simp: V_terms_def Let_def)

lemma midyear_terms_total: "d = 0 \<or> d = 1 \<Longrightarrow> \<exists>v. midyear_terms t d = Some v"
  by (auto simp: midyear_terms_def Let_def)

lemma f_dispatch_Some_iff: "(\<exists>v. f_dispatch tag I P nu = Some v) \<longleftrightarrow> tag \<in> known_tags"
  by (simp add: f_dispatch_def known_tags_def)

lemma f_dispatch_None_iff: "f_dispatch tag I P nu = None \<longleftrightarrow> tag \<notin> known_tags"
  by (simp add: f_dispatch_def known_tags_def)


lemma nu_prime_total: "\<exists>v. nu_prime N = Some v"
  using I_N_total [of N] by (auto simp: nu_prime_def Let_def)

lemma two_nu_dprime_total: "\<exists>v. two_nu_dprime N = Some v"
  using nu_N_total [of N] by (auto simp: two_nu_dprime_def Let_def)

lemma Basic_year_total:
  assumes "1 \<le> y" "y \<le> 4000" "tag \<in> known_tags"
  shows "\<exists>v. Basic_year V u tag y = Some v"
proof -
  obtain t0 where t0: "startYear y = Some t0" using startYear_total [of y] assms by auto
  obtain t1 where t1: "midYear y = Some t1" using midYear_total [of y] assms by auto
  obtain mt where mt: "midyear_terms t1 0 = Some mt" using midyear_terms_total [of 0 t1] by auto
  obtain iv where iv: "I_N (mt ! midyear_N_index) = Some iv" using I_N_total by blast
  obtain nv where nv: "nu_N (mt ! midyear_N_index) = Some nv" using nu_N_total by blast
  obtain npv where npv: "nu_prime (mt ! midyear_N_index) = Some npv"
    using nu_prime_total by blast
  obtain ndv where ndv: "two_nu_dprime (mt ! midyear_N_index) = Some ndv"
    using two_nu_dprime_total by blast
  obtain vt where vt: "V_terms t0 0 = Some vt" using V_terms_total [of 0 t0] by auto
  have fd: "\<And>I P nu. \<exists>v. f_dispatch tag I P nu = Some v"
    using f_dispatch_Some_iff assms(3) by blast
  show ?thesis
    unfolding Basic_year_def using fd
    by (simp add: t0 t1 mt iv nv npv ndv vt Let_def bind_eq_Some_conv)
qed

lemma Basic_year_unknown_tag:
  assumes "tag \<notin> known_tags"
  shows "Basic_year V u tag y = None"
proof -
  have fd: "\<And>I P nu. f_dispatch tag I P nu = None"
    using f_dispatch_None_iff assms by blast
  show ?thesis
    unfolding Basic_year_def by (simp add: Let_def bind_eq_None_conv fd)
qed

lemma Doodson_year_total:
  assumes "1 \<le> y" "y \<le> 4000"
  shows "\<exists>v. Doodson_year V sats y = Some v"
proof -
  obtain t0 where t0: "startYear y = Some t0" using startYear_total [of y] assms by auto
  obtain t1 where t1: "midYear y = Some t1" using midYear_total [of y] assms by auto
  obtain mt where mt: "midyear_terms t1 0 = Some mt" using midyear_terms_total [of 0 t1] by auto
  obtain vt where vt: "V_terms t0 0 = Some vt" using V_terms_total [of 0 t0] by auto
  show ?thesis
    unfolding Doodson_year_def by (simp add: t0 t1 mt vt Let_def)
qed

lemma Basic_speed_total:
  assumes "1 \<le> e" "e \<le> 4000"
  shows "\<exists>v. Basic_speed V u e = Some v"
proof -
  obtain t where t: "startYear e = Some t" using startYear_total [of e] assms by auto
  obtain sp where sp: "V_terms t 1 = Some sp" using V_terms_total [of 1 t] by auto
  show ?thesis unfolding Basic_speed_def using sp by (simp add: t)
qed

lemma Doodson_speed_total:
  assumes "1 \<le> e" "e \<le> 4000"
  shows "\<exists>v. Doodson_speed V e = Some v"
proof -
  obtain t where t: "startYear e = Some t" using startYear_total [of e] assms by auto
  obtain sp where sp: "V_terms t 1 = Some sp" using V_terms_total [of 1 t] by auto
  show ?thesis unfolding Doodson_speed_def using sp by (simp add: t)
qed


lemma Basic_total:
  assumes "valid_years fy ly e" "length V = numVterms" "length u = numuterms"
    "tag \<in> known_tags"
  shows "\<exists>c. Basic n V u tag fy ly e = Some c"
proof -
  obtain sp where sp: "Basic_speed V u e = Some sp"
    using Basic_speed_total [of e V u] assms(1) by (auto simp: valid_years_def)
  have "\<exists>ys. those (map (Basic_year V u tag) [fy ..< Suc ly]) = Some ys"
    using assms(1,4) by (intro those_map_total Basic_year_total) (auto simp: valid_years_def)
  then obtain ys where ys: "those (map (Basic_year V u tag) [fy ..< Suc ly]) = Some ys" ..
  show ?thesis
    unfolding Basic_def using assms ys by (simp add: sp valid_years_def)
qed

lemma those_has_None: "None \<in> set xs \<Longrightarrow> those xs = None"
  by (induction xs) (auto split: option.splits)

lemma Basic_unknown_tag:
  assumes "tag \<notin> known_tags"
  shows "Basic n V u tag fy ly e = None"
proof (cases "fy \<le> ly")
  case True
  then have "None \<in> set (map (Basic_year V u tag) [fy ..< Suc ly])"
    by (simp add: Basic_year_unknown_tag [OF assms] image_iff) 
  then have "those (map (Basic_year V u tag) [fy ..< Suc ly]) = None"
    by (rule those_has_None)
  then show ?thesis unfolding Basic_def by (simp add: bind_eq_None_conv del: upt_Suc)
next
  case False
  then show ?thesis unfolding Basic_def by simp
qed

lemma Doodson_total:
  assumes "valid_years fy ly e" "length V = numVterms"
  shows "\<exists>c. Doodson n V sats fy ly e = Some c"
proof -
  obtain sp where sp: "Doodson_speed V e = Some sp"
    using Doodson_speed_total [of e V] assms(1) by (auto simp: valid_years_def)
  have "\<exists>ys. those (map (Doodson_year V sats) [fy ..< Suc ly]) = Some ys"
    using assms(1) by (intro those_map_total Doodson_year_total) (auto simp: valid_years_def)
  then obtain ys where ys: "those (map (Doodson_year V sats) [fy ..< Suc ly]) = Some ys" ..
  show ?thesis
    unfolding Doodson_def using assms ys by (simp add: sp valid_years_def)
qed

section \<open>The add and scale algebra\<close>


lemma vsum_eq_sum_list: "vsum xs = sum_list xs"
proof -
  have "foldl (+) a xs = a + sum_list xs" for a :: real
    by (induction xs arbitrary: a) (simp_all add: add.assoc)
  then show ?thesis by (simp add: vsum_def)
qed

lemma pow_d_zero: "pow_d x 0 = 1"
  by (simp add: pow_d_def)

lemma pow_d_one: "pow_d x 1 = x"
  by (simp add: pow_d_def)


lemma times_one:
  "times 1 C = C\<lparr>c_name := ''nameless''\<rparr>"
  by (simp add: times_def times_eq_def pow_d_one)




lemma Constituent_zero_sel:
  "c_speed (Constituent_zero m) = 0"
  "length (c_Vpu (Constituent_zero m)) = m"
  "length (c_f (Constituent_zero m)) = m"
  "k < m \<Longrightarrow> c_Vpu (Constituent_zero m) ! k = 0"
  "k < m \<Longrightarrow> c_f (Constituent_zero m) ! k = 1"
  by (simp_all add: Constituent_zero_def)

lemma plus_eq_Some:
  assumes "plus_eq a x = Some r"
  shows "length (c_Vpu x) = length (c_Vpu a)" "length (c_f x) = length (c_f a)"
    "length (c_Vpu r) = length (c_Vpu a)" "length (c_f r) = length (c_f a)"
    "c_speed r = c_speed a + c_speed x"
    "\<And>k. k < length (c_Vpu a) \<Longrightarrow> c_Vpu r ! k = c_Vpu a ! k + c_Vpu x ! k"
    "\<And>k. k < length (c_f a) \<Longrightarrow> c_f r ! k = c_f a ! k * c_f x ! k"
  using assms by (auto simp: plus_eq_def vadd_def vmul_def split: if_splits)

lemma times_sel:
  "c_speed (times x y) = c_speed y * x"
  "length (c_Vpu (times x y)) = length (c_Vpu y)"
  "length (c_f (times x y)) = length (c_f y)"
  "k < length (c_Vpu y) \<Longrightarrow> c_Vpu (times x y) ! k = c_Vpu y ! k * x"
  "k < length (c_f y) \<Longrightarrow> c_f (times x y) ! k = pow_d (c_f y ! k) \<bar>x\<bar>"
  by (simp_all add: times_def times_eq_def)

lemma accumulate_Some:
  assumes "accumulate this co ts idx = Some r"
  shows "length (c_Vpu r) = length (c_Vpu this) \<and> length (c_f r) = length (c_f this)
    \<and> c_speed r = c_speed this + sum_list (map (\<lambda>i. c_speed (ts ! i) * co ! i) idx)
    \<and> (\<forall>k<length (c_Vpu this). c_Vpu r ! k
          = c_Vpu this ! k + sum_list (map (\<lambda>i. c_Vpu (ts ! i) ! k * co ! i) idx))
    \<and> (\<forall>k<length (c_f this). c_f r ! k
          = c_f this ! k * prod_list (map (\<lambda>i. pow_d (c_f (ts ! i) ! k) \<bar>co ! i\<bar>) idx))
    \<and> (\<forall>i\<in>set idx. length (c_Vpu (ts ! i)) = length (c_Vpu this)
          \<and> length (c_f (ts ! i)) = length (c_f this))"
  using assms
proof (induction idx arbitrary: this)
  case Nil
  then show ?case by simp
next
  case (Cons i idx)
  from Cons.prems obtain m where m: "plus_eq this (times (co ! i) (ts ! i)) = Some m"
    and r: "accumulate m co ts idx = Some r"
    by (auto split: option.splits)
  note p = plus_eq_Some [OF m]
  note ih = Cons.IH [OF r]
  have lv: "length (c_Vpu (ts ! i)) = length (c_Vpu this)" using p(1) by (simp add: times_sel)
  have lf: "length (c_f (ts ! i)) = length (c_f this)" using p(2) by (simp add: times_sel)
  show ?case
    using ih p(3,4,5) p(6) p(7) lv lf
    by (simp add: times_sel add.assoc mult.assoc)
qed

section \<open>Structure of the constructors\<close>


lemma length_base_table: "length base_table = numCompoundBases"
  by (simp add: base_table_def numCompoundBases_def)

lemma rebuild_terms_Some:
  assumes "rebuild_terms fy ly e = Some ts"
  shows "length ts = numCompoundBases"
    and "\<And>i. i < numCompoundBases \<Longrightarrow> base_Basic fy ly e (base_table ! i) = Some (ts ! i)"
  using those_map_Some [OF assms [unfolded rebuild_terms_def]]
  by (simp_all add: length_base_table)

lemma base_Basic_total:
  assumes "valid_years fy ly e" "b \<in> set base_table"
  shows "\<exists>c. base_Basic fy ly e b = Some c"
proof -
  obtain n V u t where b: "b = (n, V, u, t)" by (cases b) auto
  have "length V = numVterms \<and> length u = numuterms \<and> t \<in> known_tags"
    using assms(2) unfolding b base_table_def numVterms_def numuterms_def known_tags_def
    by auto
  then show ?thesis
    unfolding b base_Basic_def using Basic_total [OF assms(1), of V u t n] by simp
qed

lemma rebuild_terms_total:
  assumes "valid_years fy ly e"
  shows "\<exists>ts. rebuild_terms fy ly e = Some ts"
  unfolding rebuild_terms_def
  by (rule those_map_total) (rule base_Basic_total [OF assms])

lemma cache_inv_initial: "cache_inv Cache_initial"
  by (simp add: cache_inv_def Cache_initial_def)

lemma Compound_Some:
  assumes inv: "cache_inv cache"
    and c: "Compound cache name_in co fy ly e = Some (c, cache')"
  shows "\<exists>ts r. valid_years fy ly e \<and> length co = numCompoundBases
      \<and> rebuild_terms fy ly e = Some ts
      \<and> cache' = \<lparr>cached_years = (fy, ly, e), cached_terms = ts\<rparr>
      \<and> accumulate (Constituent_zero (ly - fy + 1)) co ts [0 ..< numCompoundBases] = Some r
      \<and> c = r\<lparr>c_name := name_in\<rparr>"
proof -
  have vy: "valid_years fy ly e" and len: "length co = numCompoundBases"
    using c by (auto simp: Compound_def valid_years_def split: if_splits)
  show ?thesis
  proof (cases "cached_years cache = (fy, ly, e)")
    case True
    then have ts: "rebuild_terms fy ly e = Some (cached_terms cache)"
      using inv vy by (auto simp: cache_inv_def valid_years_def)
    have "cache = \<lparr>cached_years = (fy, ly, e), cached_terms = cached_terms cache\<rparr>"
      using True by simp
    then show ?thesis
      using c vy len ts True
      by (auto simp: Compound_def valid_years_def bind_eq_Some_conv split: if_splits)
  next
    case False
    then show ?thesis
      using c vy len
      by (auto simp: Compound_def valid_years_def bind_eq_Some_conv split: if_splits)
  qed
qed

lemma cache_inv_Compound:
  assumes "cache_inv cache" "Compound cache name_in co fy ly e = Some (c, cache')"
  shows "cache_inv cache'"
  using Compound_Some [OF assms] by (auto simp: cache_inv_def)


lemma Basic_Some:
  assumes "Basic n V u tag fy ly e = Some c"
  shows "\<exists>sp ys. valid_years fy ly e \<and> length V = numVterms \<and> length u = numuterms
     \<and> Basic_speed V u e = Some sp
     \<and> those (map (Basic_year V u tag) [fy ..< Suc ly]) = Some ys
     \<and> c = \<lparr>c_name = n, c_speed = sp, c_Vpu = map fst ys, c_f = map snd ys\<rparr>"
  using assms
  by (auto simp: Basic_def valid_years_def bind_eq_Some_conv simp del: upt_Suc split: if_splits)

lemma Doodson_Some:
  assumes "Doodson n V sats fy ly e = Some c"
  shows "\<exists>sp ys. valid_years fy ly e \<and> length V = numVterms
     \<and> Doodson_speed V e = Some sp
     \<and> those (map (Doodson_year V sats) [fy ..< Suc ly]) = Some ys
     \<and> c = \<lparr>c_name = n, c_speed = sp, c_Vpu = map fst ys, c_f = map snd ys\<rparr>"
  using assms
  by (auto simp: Doodson_def valid_years_def bind_eq_Some_conv simp del: upt_Suc split: if_splits)

lemma Basic_series:
  assumes "Basic n V u tag fy ly e = Some c"
  shows "length (c_Vpu c) = ly - fy + 1" "length (c_f c) = ly - fy + 1"
    "\<And>k. k < ly - fy + 1 \<Longrightarrow> Basic_year V u tag (fy + k) = Some (c_Vpu c ! k, c_f c ! k)"
proof -
  from Basic_Some [OF assms] obtain sp ys where vy: "valid_years fy ly e"
    and ys: "those (map (Basic_year V u tag) [fy ..< Suc ly]) = Some ys"
    and c: "c = \<lparr>c_name = n, c_speed = sp, c_Vpu = map fst ys, c_f = map snd ys\<rparr>"
    by blast
  note t = those_map_Some [OF ys]
  have len: "length ys = ly - fy + 1" using t vy by (simp add: valid_years_def)
  show "length (c_Vpu c) = ly - fy + 1" "length (c_f c) = ly - fy + 1"
    using len c by simp_all
  fix k assume k: "k < ly - fy + 1"
  then have "Basic_year V u tag (fy + k) = Some (ys ! k)"
    using t vy by (auto simp: valid_years_def simp del: upt_Suc)
  then show "Basic_year V u tag (fy + k) = Some (c_Vpu c ! k, c_f c ! k)"
    using c k len by simp
qed

lemma Doodson_series:
  assumes "Doodson n V sats fy ly e = Some c"
  shows "length (c_Vpu c) = ly - fy + 1" "length (c_f c) = ly - fy + 1"
    "\<And>k. k < ly - fy + 1 \<Longrightarrow> Doodson_year V sats (fy + k) = Some (c_Vpu c ! k, c_f c ! k)"
proof -
  from Doodson_Some [OF assms] obtain sp ys where vy: "valid_years fy ly e"
    and ys: "those (map (Doodson_year V sats) [fy ..< Suc ly]) = Some ys"
    and c: "c = \<lparr>c_name = n, c_speed = sp, c_Vpu = map fst ys, c_f = map snd ys\<rparr>"
    by blast
  note t = those_map_Some [OF ys]
  have len: "length ys = ly - fy + 1" using t vy by (simp add: valid_years_def)
  show "length (c_Vpu c) = ly - fy + 1" "length (c_f c) = ly - fy + 1"
    using len c by simp_all
  fix k assume k: "k < ly - fy + 1"
  then have "Doodson_year V sats (fy + k) = Some (ys ! k)"
    using t vy by (auto simp: valid_years_def simp del: upt_Suc)
  then show "Doodson_year V sats (fy + k) = Some (c_Vpu c ! k, c_f c ! k)"
    using c k len by simp
qed

lemma Compound_series:
  assumes "Compound cache n co fy ly e = Some (c, cache')"
  shows "length (c_Vpu c) = ly - fy + 1" "length (c_f c) = ly - fy + 1"
proof -
  from assms obtain r ts where
    "accumulate (Constituent_zero (ly - fy + 1)) co ts [0 ..< numCompoundBases] = Some r"
    and c: "c = r\<lparr>c_name := n\<rparr>"
    by (auto simp: Compound_def bind_eq_Some_conv split: if_splits)
  from accumulate_Some [OF this(1)] show "length (c_Vpu c) = ly - fy + 1"
    "length (c_f c) = ly - fy + 1"
    using c by (simp_all add: Constituent_zero_def)
qed

lemma accumulate_total:
  assumes "\<And>i. i \<in> set idx \<Longrightarrow> length (c_Vpu (ts ! i)) = length (c_Vpu this)
      \<and> length (c_f (ts ! i)) = length (c_f this)"
  shows "\<exists>r. accumulate this co ts idx = Some r"
  using assms
proof (induction idx arbitrary: this)
  case Nil
  then show ?case by simp
next
  case (Cons i idx)
  have "length (c_Vpu this) = length (c_Vpu (times (co ! i) (ts ! i)))"
    "length (c_f this) = length (c_f (times (co ! i) (ts ! i)))"
    using Cons.prems [of i] by (simp_all add: times_sel)
  then obtain m where m: "plus_eq this (times (co ! i) (ts ! i)) = Some m"
    by (simp add: plus_eq_def)
  note p = plus_eq_Some [OF m]
  have "\<exists>r. accumulate m co ts idx = Some r"
    by (rule Cons.IH) (use Cons.prems p in auto)
  then show ?case using m by simp
qed

lemma Compound_total:
  assumes "cache_inv cache" "valid_years fy ly e" "length co = numCompoundBases"
  shows "\<exists>c cache'. Compound cache n co fy ly e = Some (c, cache')"
proof -
  obtain ts where ts: "rebuild_terms fy ly e = Some ts"
    using rebuild_terms_total [OF assms(2)] by blast
  have tl: "length (c_Vpu (ts ! i)) = ly - fy + 1 \<and> length (c_f (ts ! i)) = ly - fy + 1"
    if "i < numCompoundBases" for i
  proof -
    obtain b where "base_table ! i = b" by simp
    obtain nm V u t where b: "base_table ! i = (nm, V, u, t)" by (cases "base_table ! i") auto
    have "Basic nm V u t fy ly e = Some (ts ! i)"
      using rebuild_terms_Some(2) [OF ts that] by (simp add: b base_Basic_def)
    then show ?thesis using Basic_series(1,2) by blast
  qed
  have "\<exists>r. accumulate (Constituent_zero (ly - fy + 1)) co ts [0 ..< numCompoundBases] = Some r"
    by (rule accumulate_total) (use tl in \<open>simp add: Constituent_zero_def\<close>)
  then obtain r where
    r: "accumulate (Constituent_zero (ly - fy + 1)) co ts [0 ..< numCompoundBases] = Some r" ..
  show ?thesis
  proof (cases "cached_years cache = (fy, ly, e)")
    case True
    then have "cached_terms cache = ts"
      using assms(1,2) ts by (auto simp: cache_inv_def valid_years_def)
    then show ?thesis
      using True assms(2,3) r by (simp add: Compound_def valid_years_def)
  next
    case False
    then show ?thesis
      using assms(2,3) r ts by (simp add: Compound_def valid_years_def)
  qed
qed

lemma upt_numCompoundBases: "[0 ..< numCompoundBases] = [0, 1, 2, 3, 4, 5, 6, 7, 8, 9, 10, 11, 12]"
  by (simp add: numCompoundBases_def upt_conv_Cons)

lemma Compound_formula:
  assumes "cache_inv cache" and "Compound cache name_in co fy ly e = Some (c, cache')"
  shows "\<exists>ts. rebuild_terms fy ly e = Some ts
     \<and> (\<forall>i<numCompoundBases. base_Basic fy ly e (base_table ! i) = Some (ts ! i))
     \<and> (\<forall>i<numCompoundBases. length (c_Vpu (ts ! i)) = ly - fy + 1
           \<and> length (c_f (ts ! i)) = ly - fy + 1)
     \<and> length (c_Vpu c) = ly - fy + 1 \<and> length (c_f c) = ly - fy + 1
     \<and> c_speed c = sum_list (map (\<lambda>i. c_speed (ts ! i) * co ! i) [0 ..< numCompoundBases])
     \<and> (\<forall>k<ly - fy + 1.
           c_Vpu c ! k = sum_list (map (\<lambda>i. c_Vpu (ts ! i) ! k * co ! i) [0 ..< numCompoundBases])
         \<and> c_f c ! k
             = prod_list (map (\<lambda>i. pow_d (c_f (ts ! i) ! k) \<bar>co ! i\<bar>) [0 ..< numCompoundBases]))"
proof -
  from Compound_Some [OF assms] obtain ts r where ts: "rebuild_terms fy ly e = Some ts"
    and r: "accumulate (Constituent_zero (ly - fy + 1)) co ts [0 ..< numCompoundBases] = Some r"
    and c: "c = r\<lparr>c_name := name_in\<rparr>"
    by blast
  note a = accumulate_Some [OF r]
  have b: "\<forall>i<numCompoundBases. base_Basic fy ly e (base_table ! i) = Some (ts ! i)"
    using rebuild_terms_Some(2) [OF ts] by blast
  have l: "\<forall>i<numCompoundBases. length (c_Vpu (ts ! i)) = ly - fy + 1
           \<and> length (c_f (ts ! i)) = ly - fy + 1"
    using a by (simp add: Constituent_zero_sel)
  show ?thesis
    using ts b l a c by (simp add: Constituent_zero_sel)
qed

section \<open>Bounds on the epoch and the speed of the lunar perigee\<close>


lemma startYear_bounds:
  assumes "1 \<le> y" "y \<le> 4001" "startYear y = Some t"
  shows "- 62135596800 \<le> t" "t \<le> 64150531200"
proof -
  define k where "k = int y - 1"
  have k: "0 \<le> k" "k \<le> 4000" using assms by (simp_all add: k_def)
  have d: "0 \<le> k div 400" "k div 400 \<le> 10" "k div 100 \<le> k div 4" "k div 4 \<le> 1000"
    "0 \<le> k div 100"
    using k by (simp_all add: zdiv_mono2)
  have t: "t = - 62135596800 + k * 31536000 + (k div 4 - k div 100 + k div 400) * 86400"
    using startYear_exact [OF assms(1,2)] assms(3) by (simp add: k_def)
  show "- 62135596800 \<le> t" unfolding t using k d by simp
  show "t \<le> 64150531200" unfolding t using k d by simp
qed

lemma Table_1_T_bounds:
  assumes "1 \<le> y" "y \<le> 4001" "startYear y = Some t"
  shows "- 22 \<le> Table_1_T t" "Table_1_T t \<le> 22"
proof -
  note b = startYear_bounds [OF assms]
  have i: "int64 (t - (- 2209032000)) = t + 2209032000"
    using b by (intro int64_id [THEN trans]) simp_all
  have lo: "- 59926564800 \<le> t + 2209032000" and hi: "t + 2209032000 \<le> 66359563200"
    using b by simp_all
  have "real_of_int (- 59926564800) \<le> real_of_int (t + 2209032000)"
    using lo by (simp only: of_int_le_iff)
  moreover have "real_of_int (t + 2209032000) \<le> real_of_int 66359563200"
    using hi by (simp only: of_int_le_iff)
  ultimately show "- 22 \<le> Table_1_T t" "Table_1_T t \<le> 22"
    unfolding Table_1_T_def i secondsPerJulianCentury_double_def
    by (simp_all add: field_simps)
qed

lemma p_speed_pos:
  assumes "1 \<le> e" "e \<le> 4000" "startYear e = Some t" "V_terms t 1 = Some sp"
  shows "0 < sp ! p_index"
proof -
  define x where "x = Table_1_T t"
  have x: "- 22 \<le> x" "x \<le> 22" using Table_1_T_bounds [of e t] assms by (simp_all add: x_def)
  then have "\<bar>x\<bar> \<le> \<bar>22\<bar>" by simp
  then have "x\<^sup>2 \<le> 22\<^sup>2" by (simp only: abs_le_square_iff)
  then have xx: "x * x \<le> 484" by (simp add: power2_eq_square)
  have "0 \<le> x * x" by simp
  have sp: "sp ! p_index = (11*360 + 392515.94/3600) + 2 * x * (- 37.24/3600)
              + 3 * (x * x) * (- 0.045/3600)"
    using assms(4)
    by (auto simp: V_terms_def Let_def vadd_def vscale_def p_index_def x_def
        V_coeff1_def V_coeff2_def V_coeff3_def)
  show ?thesis unfolding sp using x xx by simp
qed


lemma Basic_speed_formula:
  assumes "Basic n V u tag fy ly e = Some c"
  shows "\<exists>t sp. startYear e = Some t \<and> V_terms t 1 = Some sp
     \<and> c_speed c = (vsum (vmul sp V) + sp ! p_index * u ! Q_index) / 876600
     \<and> (sp ! p_index * u ! Q_index = 0 \<longleftrightarrow> u ! Q_index = 0)"
proof -
  from Basic_Some [OF assms] obtain s where vy: "valid_years fy ly e"
    and s: "Basic_speed V u e = Some s" and c: "c_speed c = s"
    by auto
  from s obtain t sp where t: "startYear e = Some t" and sp: "V_terms t 1 = Some sp"
    and sv: "s = (vsum (vmul sp V) + sp ! p_index * u ! Q_index) / 876600"
    by (auto simp: Basic_speed_def bind_eq_Some_conv hoursPerJulianCentury_double_def)
  have "0 < sp ! p_index"
    using p_speed_pos [of e t sp] vy t sp by (simp add: valid_years_def)
  then show ?thesis using t sp sv c by simp
qed

lemma base_table_Q_column:
  assumes "i < numCompoundBases"
  shows "case base_table ! i of (n, V, u, t) \<Rightarrow> u ! Q_index = 0"
proof -
  have "i < 13" using assms by (simp add: numCompoundBases_def)
  then have "i \<in> {0,1,2,3,4,5,6,7,8,9,10,11,12}" by simp presburger
  then show ?thesis
    by (auto simp: base_table_def Q_index_def)
qed

lemma base_table_R_column:
  assumes "i < numCompoundBases"
  shows "(case base_table ! i of (n, V, u, t) \<Rightarrow> u ! R_index = 0) \<longleftrightarrow> i \<noteq> L2_index"
proof -
  have "i < 13" using assms by (simp add: numCompoundBases_def)
  then have "i \<in> {0,1,2,3,4,5,6,7,8,9,10,11,12}" by simp presburger
  then show ?thesis
    by (auto simp: base_table_def R_index_def L2_index_def)
qed

lemma speeds_1900:
  assumes "startYear 1900 = Some t" "V_terms t 1 = Some sp"
  shows "sp = vadd (vadd V_coeff1 (vscale (2 * (1 / 73050)) V_coeff2))
                (vscale (3 * ((1 / 73050) * (1 / 73050))) V_coeff3)"
proof -
  have tv: "t = - 2208988800" using assms(1) startYear_exact [of 1900] by simp
  have t1: "Table_1_T t = 1 / 73050"
    unfolding tv Table_1_T_def secondsPerJulianCentury_double_def
    by (simp add: int64_id)
  show ?thesis using assms(2) unfolding V_terms_def Let_def t1 by simp
qed

section \<open>Reduction of angles and rounding\<close>













lemma fmod_minus_360: "fmod (- 360) 360 = 0"
  by (simp add: fmod_def trunc_def)

lemma replicate_two: "replicate 2 c = [c, c]"
  by (simp add: numeral_2_eq_2)

lemma sprintf_zero:
  "sprintf_f False 6 2 False 0 = ''  0.00''" "sprintf_f True 7 2 True 0 = ''  -0.00''"
  by (simp_all add: sprintf_f_def round_half_even_def Let_def dec_digits.simps digit_char_def
      replicate_two)


lemma snormalize_minus_360: "snormalize (- 360) 2 = Some ''  -0.00''"
  by (simp add: snormalize_def snormalize_degrees_def snormalize_signbit_def fmod_minus_360
      sprintf_zero Let_def)







section \<open>Tokens\<close>


lemma sentry_skip:
  assumes "good s" "rdbuf s = ws @ c # rest" "\<forall>x\<in>set ws. isspace x" "\<not> isspace c"
  shows "sentry s = (s\<lparr>rdbuf := c # rest\<rparr>, True)"
proof -
  have "dropWhile isspace (rdbuf s) = c # rest"
    using assms(2,3,4) by (simp add: dropWhile_append2)
  then show ?thesis using assms(1) by (simp add: sentry_def Let_def)
qed

lemma sentry_end:
  assumes "good s" "\<forall>x\<in>set (rdbuf s). isspace x"
  shows "sentry s = (s\<lparr>rdbuf := [], eofbit := True, failbit := True\<rparr>, False)"
proof -
  have "dropWhile isspace (rdbuf s) = []" using assms(2) by simp
  then show ?thesis using assms(1) by (simp add: sentry_def Let_def)
qed

lemma good_update_rdbuf [simp]: "good (s\<lparr>rdbuf := x\<rparr>) = good s"
  by (simp add: good_def)

lemma token_split:
  assumes "tok \<noteq> []" "\<forall>x\<in>set tok. \<not> isspace x" "rest = [] \<or> isspace (hd rest)"
  shows "takeWhile (\<lambda>c. \<not> isspace c) (tok @ rest) = tok"
    and "dropWhile (\<lambda>c. \<not> isspace c) (tok @ rest) = rest"
proof -
  have r: "takeWhile (\<lambda>c. \<not> isspace c) rest = []" "dropWhile (\<lambda>c. \<not> isspace c) rest = rest"
    using assms(3) by (cases rest; simp)+
  show "takeWhile (\<lambda>c. \<not> isspace c) (tok @ rest) = tok"
    using assms(2) r by (simp add: takeWhile_append2)
  show "dropWhile (\<lambda>c. \<not> isspace c) (tok @ rest) = rest"
    using assms(2) r by (simp add: dropWhile_append2)
qed

lemma extract_string_token:
  assumes "good s" "rdbuf s = ws @ tok @ rest" "\<forall>x\<in>set ws. isspace x"
    "tok \<noteq> []" "\<forall>x\<in>set tok. \<not> isspace x" "rest = [] \<or> isspace (hd rest)"
  shows "extract_string s old = (s\<lparr>rdbuf := rest, eofbit := (rest = [])\<rparr>, tok)"
proof -
  obtain c t where tok: "tok = c # t" using assms(4) by (cases tok) auto
  have c: "\<not> isspace c" using assms(5) tok by simp
  have "sentry s = (s\<lparr>rdbuf := c # (t @ rest)\<rparr>, True)"
    by (rule sentry_skip [OF assms(1) _ assms(3) c]) (simp add: assms(2) tok)
  then show ?thesis
    using token_split [OF assms(4,5,6)]
    by (simp add: extract_string_def Let_def tok)
qed

section \<open>Steps of the parser\<close>


lemma main_loop_step:
  assumes "good is" "getline is [] = (is1, buf)"
  shows "main_loop fy ly e is n cs cache =
     (if fail is1 then Returned 0 cs cache
      else if buf = [] \<or> hd buf = CHR ''#'' then main_loop fy ly e is1 (n + 1) cs cache
      else case read_record is1 (n + 1) buf of
             Malformed k \<Rightarrow> Returned k cs cache
           | Parsed is2 n2 r \<Rightarrow>
               (case construct cache r fy ly e of
                  None \<Rightarrow> Aborted
                | Some (c, cache') \<Rightarrow> main_loop fy ly e is2 n2 (cs @ [c]) cache'))"
  by (subst main_loop.simps) (simp add: assms)

lemma main_loop_not_good:
  "\<not> good is \<Longrightarrow> main_loop fy ly e is n cs cache = Returned 0 cs cache"
  by (subst main_loop.simps) simp

lemma read_name_kind:
  assumes "line = ws1 @ name @ ws2 @ kind @ ws3"
    and "\<forall>c\<in>set ws1. isspace c" "\<forall>c\<in>set ws2. isspace c" "\<forall>c\<in>set ws3. isspace c"
    and "ws2 \<noteq> []" "name \<noteq> []" "\<forall>c\<in>set name. \<not> isspace c"
    and "kind \<noteq> []" "\<forall>c\<in>set kind. \<not> isspace c"
  shows "extract_string (istringstream line) [] = ((istringstream (ws2 @ kind @ ws3)), name)"
    and "extract_string (istringstream (ws2 @ kind @ ws3)) []
           = ((istringstream ws3)\<lparr>eofbit := (ws3 = [])\<rparr>, kind)"
proof -
  have g: "good (istringstream x)" for x by (simp add: good_def istringstream_def)
  have h2: "isspace (hd (ws2 @ kind @ ws3))" using assms(3,5) by (cases ws2) auto
  have "extract_string (istringstream line) []
        = ((istringstream line)\<lparr>rdbuf := ws2 @ kind @ ws3, eofbit := (ws2 @ kind @ ws3 = [])\<rparr>,
           name)"
    by (rule extract_string_token [OF g _ assms(2) assms(6,7)])
      (use h2 assms(1) in \<open>simp_all add: istringstream_def\<close>)
  then show "extract_string (istringstream line) [] = ((istringstream (ws2 @ kind @ ws3)), name)"
    using assms(5) by (simp add: istringstream_def)
  have h3: "ws3 = [] \<or> isspace (hd ws3)" using assms(4) by (cases ws3) auto
  have "extract_string (istringstream (ws2 @ kind @ ws3)) []
        = ((istringstream (ws2 @ kind @ ws3))\<lparr>rdbuf := ws3, eofbit := (ws3 = [])\<rparr>, kind)"
    by (rule extract_string_token [OF g _ assms(3) assms(8,9) h3])
      (simp add: istringstream_def)
  then show "extract_string (istringstream (ws2 @ kind @ ws3)) []
           = ((istringstream ws3)\<lparr>eofbit := (ws3 = [])\<rparr>, kind)"
    by (simp add: istringstream_def)
qed

lemma compound_loop_blank:
  assumes "\<forall>c\<in>set ws. isspace c"
  shows "compound_loop [0 ..< numCompoundBases] (istringstream ws) (replicate numCompoundBases 0)
         = replicate numCompoundBases 0"
proof -
  have g: "good (istringstream ws)" by (simp add: good_def istringstream_def)
  have "sentry (istringstream ws)
        = ((istringstream ws)\<lparr>rdbuf := [], eofbit := True, failbit := True\<rparr>, False)"
    by (rule sentry_end [OF g]) (use assms in \<open>simp add: istringstream_def\<close>)
  then have f: "fail (fst (extract_double (istringstream ws) old))" for old
    by (simp add: extract_double_def fail_def)
  have z: "(replicate numCompoundBases (0::real))[0 := 0] = replicate numCompoundBases 0"
    by (simp add: numCompoundBases_def list_update_same_conv)
  show ?thesis
    unfolding upt_numCompoundBases using f z
    by (simp add: split_beta)
qed

lemma sum_list_all_zero: "(\<And>x. x \<in> set xs \<Longrightarrow> g x = (0::real)) \<Longrightarrow> sum_list (map g xs) = 0"
  by (induction xs) simp_all

lemma prod_list_all_one: "(\<And>x. x \<in> set xs \<Longrightarrow> g x = (1::real)) \<Longrightarrow> prod_list (map g xs) = 1"
  by (induction xs) simp_all

lemma Compound_zero:
  assumes "cache_inv cache" "valid_years fy ly e"
  shows "\<exists>c cache'. Compound cache name_in (replicate numCompoundBases 0) fy ly e = Some (c, cache')
     \<and> c_name c = name_in \<and> c_speed c = 0
     \<and> c_Vpu c = replicate (ly - fy + 1) 0 \<and> c_f c = replicate (ly - fy + 1) 1"
proof -
  let ?co = "replicate numCompoundBases (0::real)"
  obtain c cache' where c: "Compound cache name_in ?co fy ly e = Some (c, cache')"
    using Compound_total [OF assms, where co = ?co and n = name_in] by auto
  from Compound_formula [OF assms(1) c] obtain ts :: "Constituent list" where
    a: "length (c_Vpu c) = ly - fy + 1 \<and> length (c_f c) = ly - fy + 1
     \<and> c_speed c = sum_list (map (\<lambda>i. c_speed (ts ! i) * ?co ! i) [0 ..< numCompoundBases])
     \<and> (\<forall>k<ly - fy + 1.
           c_Vpu c ! k = sum_list (map (\<lambda>i. c_Vpu (ts ! i) ! k * ?co ! i) [0 ..< numCompoundBases])
         \<and> c_f c ! k
             = prod_list (map (\<lambda>i. pow_d (c_f (ts ! i) ! k) \<bar>?co ! i\<bar>) [0 ..< numCompoundBases]))"
    by blast
  note lc = a [THEN conjunct1] a [THEN conjunct2, THEN conjunct1]
  note s = a [THEN conjunct2, THEN conjunct2, THEN conjunct1]
  note e = a [THEN conjunct2, THEN conjunct2, THEN conjunct2]
  have nm: "c_name c = name_in"
    using Compound_Some [OF assms(1) c] by auto
  have sp: "c_speed c = 0"
    unfolding s by (rule sum_list_all_zero) simp
  have v: "c_Vpu c = replicate (ly - fy + 1) 0"
  proof (rule nth_equalityI)
    show "length (c_Vpu c) = length (replicate (ly - fy + 1) (0::real))" using lc by simp
    fix k assume "k < length (c_Vpu c)"
    then have k: "k < ly - fy + 1" using lc by simp
    have "c_Vpu c ! k = sum_list (map (\<lambda>i. c_Vpu (ts ! i) ! k * ?co ! i) [0 ..< numCompoundBases])"
      using e k by blast
    also have "\<dots> = 0" by (rule sum_list_all_zero) simp
    finally have "c_Vpu c ! k = 0" .
    then show "c_Vpu c ! k = replicate (ly - fy + 1) 0 ! k" by (simp only: nth_replicate [OF k])
  qed
  have f: "c_f c = replicate (ly - fy + 1) 1"
  proof (rule nth_equalityI)
    show "length (c_f c) = length (replicate (ly - fy + 1) (1::real))" using lc by simp
    fix k assume "k < length (c_f c)"
    then have k: "k < ly - fy + 1" using lc by simp
    have "c_f c ! k
          = prod_list (map (\<lambda>i. pow_d (c_f (ts ! i) ! k) \<bar>?co ! i\<bar>) [0 ..< numCompoundBases])"
      using e k by blast
    also have "\<dots> = 1" by (rule prod_list_all_one) (simp add: pow_d_zero)
    finally have "c_f c ! k = 1" .
    then show "c_f c ! k = replicate (ly - fy + 1) 1 ! k" by (simp only: nth_replicate [OF k])
  qed
  show ?thesis using c nm sp v f by blast
qed

lemma getline_last_line:
  "line \<noteq> [] \<Longrightarrow> CHR 0x0A \<notin> set line \<Longrightarrow>
     getline (istringstream line) [] = ((istringstream [])\<lparr>eofbit := True\<rparr>, line)"
proof -
  assume a: "line \<noteq> []" "CHR 0x0A \<notin> set line"
  have t: "takeWhile (\<lambda>c. c \<noteq> CHR 0x0A) line = line"
    using a(2) by (simp add: takeWhile_eq_all_conv) metis
  have d: "dropWhile (\<lambda>c. c \<noteq> CHR 0x0A) line = []"
    using a(2) by (simp add: dropWhile_eq_Nil_conv) metis
  show ?thesis
    using a(1) by (simp add: getline_def istringstream_def good_def Let_def t d)
qed
section \<open>Numeric fields\<close>

lemma good_istringstream: "good (istringstream x)"
  by (simp add: good_def istringstream_def)







section \<open>Records whose constructor fails\<close>


lemma construct_Basic_None_iff:
  assumes "valid_years fy ly e" "length V = numVterms" "length u = numuterms"
  shows "construct cache (BasicRec name V u t) fy ly e = None
         \<longleftrightarrow> (word_of_nat t :: 8 word) \<notin> known_tags"
proof (cases "(word_of_nat t :: 8 word) \<in> known_tags")
  case True
  then show ?thesis
    using Basic_total [OF assms True, of name] by (auto simp: construct_def)
next
  case False
  then show ?thesis
    by (simp add: construct_def Basic_unknown_tag)
qed


lemma getline_line:
  assumes "CHR 0x0A \<notin> set line"
  shows "getline (istringstream (line @ CHR 0x0A # rest)) [] = (istringstream rest, line)"
proof -
  have t: "takeWhile (\<lambda>c. c \<noteq> CHR 0x0A) (line @ CHR 0x0A # rest) = line"
    using assms by (induction line) auto
  have d: "dropWhile (\<lambda>c. c \<noteq> CHR 0x0A) (line @ CHR 0x0A # rest) = CHR 0x0A # rest"
    using assms by (induction line) auto
  show ?thesis
    unfolding getline_def
    by (simp add: good_istringstream Let_def)
      (simp add: istringstream_def t d)
qed



section \<open>The satellite loop\<close>













section \<open>Reading and constructing apart\<close>

lemma main_loop_records:
  "main_loop fy ly e is n cs cache =
     (case records_read is n of
        (rs, ko) \<Rightarrow>
          (case construct_all cache rs fy ly e of
             None \<Rightarrow> Aborted
           | Some (cs', cache') \<Rightarrow> Returned (returned_number ko) (cs @ cs') cache'))"
proof (induction fy ly e "is" n cs cache rule: main_loop.induct)
  case (1 fy ly e "is" n cs cache)
  show ?case
  proof (cases "good is")
    case False
    then show ?thesis
      by (simp add: main_loop.simps [of fy ly e "is"] records_read.simps [of "is"]
          returned_number_def)
  next
    case g: True
    obtain is1 buf where gl: "getline is [] = (is1, buf)" by (cases "getline is []") auto
    have nn: "\<not> \<not> good is" using g by simp
    note step = main_loop_step [OF g gl, of fy ly e n cs cache]
    have rstep: "records_read is n =
      (if fail is1 then ([], None)
       else if buf = [] \<or> hd buf = CHR ''#'' then records_read is1 (n + 1)
       else case read_record is1 (n + 1) buf of
              Malformed k \<Rightarrow> ([], Some k)
            | Parsed is2 n2 r \<Rightarrow> (case records_read is2 n2 of (rs, k) \<Rightarrow> (r # rs, k)))"
      by (subst records_read.simps) (simp add: g gl)
    show ?thesis
    proof (cases "fail is1")
      case True
      then show ?thesis using step rstep by (simp add: returned_number_def)
    next
      case nf: False
      show ?thesis
      proof (cases "buf = []")
        case True
        from "1.IH"(1) [OF nn gl [symmetric] nf True] show ?thesis
          using step rstep nf True by simp
      next
        case ne: False
        show ?thesis
        proof (cases "hd buf = CHR ''#''")
          case True
          from "1.IH"(2) [OF nn gl [symmetric] nf ne True] show ?thesis
            using step rstep nf ne True by simp
        next
          case nh: False
          show ?thesis
          proof (cases "read_record is1 (n + 1) buf")
            case (Malformed k)
            then show ?thesis using step rstep nf ne nh by (simp add: returned_number_def)
          next
            case (Parsed is2 n2 r)
            show ?thesis
            proof (cases "construct cache r fy ly e")
              case None
              then show ?thesis using step rstep nf ne nh Parsed
                by (simp split: prod.splits)
            next
              case (Some a)
              then obtain c cache' where c: "construct cache r fy ly e = Some (c, cache')"
                by (cases a) auto
              from "1.IH"(3) [OF nn gl [symmetric] nf ne nh Parsed c refl]
              show ?thesis using step rstep nf ne nh Parsed c
                by (simp split: prod.splits option.splits)
            qed
          qed
        qed
      qed
    qed
  qed
qed

lemma sat_loop_Malformed:
  "sat_loop numsats i is iss lineno sats = SatMalformed k \<Longrightarrow> lineno \<le> k"
proof (induction numsats i "is" iss lineno sats rule: sat_loop.induct)
  case (1 numsats i "is" iss lineno satellites)
  show ?case
  proof (cases "i < numsats")
    case False
    then show ?thesis using "1.prems" by (simp add: sat_loop.simps)
  next
    case True
    have nn: "\<not> \<not> i < numsats" using True by simp
    show ?thesis
    proof (cases "refill is iss lineno")
      case None
      then show ?thesis using "1.prems" True by (subst (asm) sat_loop.simps) simp
    next
      case (Some a)
      then obtain is1 iss1 lineno1 where r: "refill is iss lineno = Some (is1, iss1, lineno1)"
        by (cases a) auto
      note rl = refill_length [OF r]
      show ?thesis
      proof (cases "read_block iss1")
        case (Retry iss2)
        then have "sat_loop numsats i is1 iss2 lineno1 satellites = SatMalformed k"
          using "1.prems" True r by (subst (asm) sat_loop.simps) simp
        from "1.IH"(1) [OF nn r refl refl Retry this] rl show ?thesis by simp
      next
        case Bad
        then show ?thesis using "1.prems" True r rl by (subst (asm) sat_loop.simps) simp
      next
        case (Counted iss2 so)
        then have "sat_loop numsats (i + 1) is1 iss2 lineno1
            (case so of None \<Rightarrow> satellites | Some s \<Rightarrow> satellites @ [s]) = SatMalformed k"
          using "1.prems" True r by (subst (asm) sat_loop.simps) simp
        from "1.IH"(2) [OF nn r refl refl Counted this] rl show ?thesis by simp
      qed
    qed
  qed
qed

lemma read_record_Malformed: "read_record is lineno buf = Malformed k \<Longrightarrow> lineno \<le> k"
  using sat_loop_Malformed
  by (auto simp: read_record_def read_Basic_def read_Doodson_def read_Compound_def
      split: prod.splits if_splits option.splits sat_result.splits)

lemma records_read_number:
  "records_read is n = (rs, Some k) \<Longrightarrow> n < k"
proof (induction "is" n arbitrary: rs rule: records_read.induct)
  case (1 "is" n)
  show ?case
  proof (cases "good is")
    case False
    then show ?thesis using "1.prems" by (simp add: records_read.simps [of "is"])
  next
    case g: True
    obtain is1 buf where gl: "getline is [] = (is1, buf)" by (cases "getline is []") auto
    have nn: "\<not> \<not> good is" using g by simp
    have rstep: "records_read is n =
      (if fail is1 then ([], None)
       else if buf = [] \<or> hd buf = CHR ''#'' then records_read is1 (n + 1)
       else case read_record is1 (n + 1) buf of
              Malformed k \<Rightarrow> ([], Some k)
            | Parsed is2 n2 r \<Rightarrow> (case records_read is2 n2 of (rs, k) \<Rightarrow> (r # rs, k)))"
      by (subst records_read.simps) (simp add: g gl)
    show ?thesis
    proof (cases "fail is1")
      case True
      then show ?thesis using rstep "1.prems" by simp
    next
      case nf: False
      show ?thesis
      proof (cases "buf = []")
        case True
        from "1.IH"(1) [OF nn gl [symmetric] nf True, of rs] show ?thesis
          using rstep nf True "1.prems" by simp
      next
        case ne: False
        show ?thesis
        proof (cases "hd buf = CHR ''#''")
          case True
          from "1.IH"(2) [OF nn gl [symmetric] nf ne True, of rs] show ?thesis
            using rstep nf ne True "1.prems" by simp
        next
          case nh: False
          show ?thesis
          proof (cases "read_record is1 (n + 1) buf")
            case (Malformed j)
            then show ?thesis
              using rstep nf ne nh "1.prems" read_record_Malformed [OF Malformed] by simp
          next
            case (Parsed is2 n2 r)
            obtain rs' where rs': "records_read is2 n2 = (rs', Some k)"
              using rstep nf ne nh "1.prems" Parsed by (auto split: prod.splits)
            from "1.IH"(3) [OF nn gl [symmetric] nf ne nh Parsed rs']
              read_record_length [OF Parsed]
            show ?thesis by simp
          qed
        qed
      qed
    qed
  qed
qed


lemma read_coefficients_length:
  "read_coefficients k iss = Some (iss', vs) \<Longrightarrow> length vs = k"
  by (induction k arbitrary: iss iss' vs) (auto split: prod.splits if_splits option.splits)

lemma compound_loop_length: "length (compound_loop idx iss co) = length co"
  by (induction idx iss co rule: compound_loop.induct) (auto split: prod.splits)

lemma read_record_shaped:
  "read_record is n buf = Parsed is' n' r \<Longrightarrow> record_shaped r"
  by (auto simp: read_record_def read_Basic_def read_Doodson_def read_Compound_def
      compound_loop_length numuterms_def
      dest!: read_coefficients_length
      split: prod.splits if_splits option.splits sat_result.splits)

lemma records_read_step:
  assumes "good is" "getline is [] = (is1, buf)"
  shows "records_read is n =
      (if fail is1 then ([], None)
       else if buf = [] \<or> hd buf = CHR ''#'' then records_read is1 (n + 1)
       else case read_record is1 (n + 1) buf of
              Malformed k \<Rightarrow> ([], Some k)
            | Parsed is2 n2 r \<Rightarrow> (case records_read is2 n2 of (rs, k) \<Rightarrow> (r # rs, k)))"
  by (subst records_read.simps) (simp add: assms)

lemma records_read_shaped:
  "records_read is n = (rs, ko) \<Longrightarrow> \<forall>r\<in>set rs. record_shaped r"
proof (induction "is" n arbitrary: rs ko rule: records_read.induct)
  case (1 "is" n)
  show ?case
  proof (cases "good is")
    case False
    then show ?thesis using "1.prems" by (simp add: records_read.simps [of "is"])
  next
    case g: True
    obtain is1 buf where gl: "getline is [] = (is1, buf)" by (cases "getline is []") auto
    have nn: "\<not> \<not> good is" using g by simp
    note rstep = records_read_step [OF g gl, of n]
    show ?thesis
    proof (cases "fail is1")
      case True
      then show ?thesis using rstep "1.prems" by simp
    next
      case nf: False
      show ?thesis
      proof (cases "buf = []")
        case True
        from "1.IH"(1) [OF nn gl [symmetric] nf True, of rs ko] show ?thesis
          using rstep nf True "1.prems" by simp
      next
        case ne: False
        show ?thesis
        proof (cases "hd buf = CHR ''#''")
          case True
          from "1.IH"(2) [OF nn gl [symmetric] nf ne True, of rs ko] show ?thesis
            using rstep nf ne True "1.prems" by simp
        next
          case nh: False
          show ?thesis
          proof (cases "read_record is1 (n + 1) buf")
            case (Malformed j)
            then show ?thesis using rstep nf ne nh "1.prems" by simp
          next
            case (Parsed is2 n2 r)
            obtain rs' where rs': "records_read is2 n2 = (rs', ko)" and rs: "rs = r # rs'"
              using rstep nf ne nh "1.prems" Parsed by (auto split: prod.splits)
            from "1.IH"(3) [OF nn gl [symmetric] nf ne nh Parsed rs']
              read_record_shaped [OF Parsed]
            show ?thesis by (simp add: rs)
          qed
        qed
      qed
    qed
  qed
qed

lemma construct_shaped:
  assumes "valid_years fy ly e" "cache_inv cache" "record_shaped r"
  shows "(construct cache r fy ly e = None \<longleftrightarrow> unknown_tag r)
    \<and> (\<forall>c cache'. construct cache r fy ly e = Some (c, cache') \<longrightarrow> cache_inv cache')"
proof (cases r)
  case (BasicRec name V u t)
  then show ?thesis
    using construct_Basic_None_iff [OF assms(1), of V u cache name t] assms(2,3)
    by (auto simp: construct_def)
next
  case (DoodsonRec name V sats)
  then show ?thesis
    using Doodson_total [OF assms(1), of V name sats] assms(2,3)
    by (auto simp: construct_def)
next
  case (CompoundRec name co)
  then show ?thesis
    using Compound_total [OF assms(2,1), of co name] assms(3)
      cache_inv_Compound [OF assms(2), of name co fy ly e]
    by (auto simp: construct_def)
qed

lemma construct_all_None_iff:
  assumes "valid_years fy ly e"
  shows "cache_inv cache \<Longrightarrow> \<forall>r\<in>set rs. record_shaped r \<Longrightarrow>
    (construct_all cache rs fy ly e = None \<longleftrightarrow> (\<exists>r\<in>set rs. unknown_tag r))"
proof (induction rs arbitrary: cache)
  case Nil
  then show ?case by simp
next
  case (Cons r rs)
  note cs = construct_shaped [OF assms Cons.prems(1), of r]
  have sh: "record_shaped r" using Cons.prems(2) by simp
  show ?case
  proof (cases "construct cache r fy ly e")
    case None
    then show ?thesis using cs sh by simp
  next
    case (Some a)
    then obtain c cache' where c: "construct cache r fy ly e = Some (c, cache')"
      by (cases a) auto
    then have inv: "cache_inv cache'" and nu: "\<not> unknown_tag r" using cs sh by auto
    from Cons.IH [OF inv] Cons.prems(2) show ?thesis
      using c nu by (auto split: option.splits)
  qed
qed


section \<open>C1: the published speed\<close>

text \<open>
  C1.  A Basic construction completes for valid years (the epoch year among them, in
  \<open>[1, 4000]\<close>), six V coefficients, seven u coefficients and a tag of the dispatch.
  Whenever it completes, the epoch year has a start time \<open>t\<close> and the published speed is
  \<open>((V_terms t 1 \<cdot> V) + V_terms t 1 ! p_index * u ! Q_index) / 876600\<close>.  The second
  term is zero exactly when the coefficient of \<open>Q\<close> is zero, and it is zero in each of
  the thirteen coefficient sets of the Compound base constituents (the set of
  \<open>M\<^sub>1-DUTCH\<close>, which carries \<open>Q\<^sub>u\<close> and not \<open>Q\<close>, included), so that their speeds are
  \<open>(V_terms t 1 \<cdot> V) / 876600\<close>.
\<close>

theorem C1_speed:
  "(valid_years fy ly e \<and> length V = numVterms \<and> length u = numuterms \<and> tag \<in> known_tags \<longrightarrow>
      (\<exists>c. Basic n V u tag fy ly e = Some c))
   \<and> (Basic n V u tag fy ly e = Some c \<longrightarrow>
      0 < e \<and> e \<le> 4000
      \<and> (\<exists>t sp. startYear e = Some t \<and> V_terms t 1 = Some sp
         \<and> c_speed c = (vsum (vmul sp V) + sp ! p_index * u ! Q_index) / 876600
         \<and> (sp ! p_index * u ! Q_index = 0 \<longleftrightarrow> u ! Q_index = 0)))
   \<and> (\<forall>i<numCompoundBases.
         case base_table ! i of (bn, bV, bu, bt) \<Rightarrow>
           bu ! Q_index = 0
           \<and> (\<forall>bc. Basic bn bV bu bt fy ly e = Some bc \<longrightarrow>
                 (\<exists>t sp. startYear e = Some t \<and> V_terms t 1 = Some sp
                    \<and> sp ! p_index * bu ! Q_index = 0
                    \<and> c_speed bc = vsum (vmul sp bV) / 876600)))"
proof (intro conjI impI allI)
  assume "valid_years fy ly e \<and> length V = numVterms \<and> length u = numuterms
    \<and> tag \<in> known_tags"
  then show "\<exists>c. Basic n V u tag fy ly e = Some c"
    using Basic_total [of fy ly e V u tag n] by blast
next
  assume c: "Basic n V u tag fy ly e = Some c"
  from Basic_Some [OF c] have "valid_years fy ly e" by blast
  then show "0 < e" "e \<le> 4000" by (simp_all add: valid_years_def)
  show "\<exists>t sp. startYear e = Some t \<and> V_terms t 1 = Some sp
         \<and> c_speed c = (vsum (vmul sp V) + sp ! p_index * u ! Q_index) / 876600
         \<and> (sp ! p_index * u ! Q_index = 0 \<longleftrightarrow> u ! Q_index = 0)"
    by (rule Basic_speed_formula [OF c])
next
  fix i assume i: "i < numCompoundBases"
  obtain bn bV bu bt where b: "base_table ! i = (bn, bV, bu, bt)"
    by (cases "base_table ! i") auto
  have q: "bu ! Q_index = 0" using base_table_Q_column [OF i] b by simp
  have "\<exists>t sp. startYear e = Some t \<and> V_terms t 1 = Some sp
                    \<and> sp ! p_index * bu ! Q_index = 0
                    \<and> c_speed bc = vsum (vmul sp bV) / 876600"
    if bc: "Basic bn bV bu bt fy ly e = Some bc" for bc
    using Basic_speed_formula [OF bc] q by auto
  then show "case base_table ! i of (bn, bV, bu, bt) \<Rightarrow>
           bu ! Q_index = 0
           \<and> (\<forall>bc. Basic bn bV bu bt fy ly e = Some bc \<longrightarrow>
                 (\<exists>t sp. startYear e = Some t \<and> V_terms t 1 = Some sp
                    \<and> sp ! p_index * bu ! Q_index = 0
                    \<and> c_speed bc = vsum (vmul sp bV) / 876600))"
    using b q by simp
qed

text \<open>
  The theorem at \<open>L\<^sub>2\<close>, the base constituent of index 6, whose set carries \<open>R\<close>: its
  speed is the V part alone, 29.528479 degrees per hour.  And at a constituent with the
  coefficient 1 on \<open>Q\<close>, the \<open>M\<^sub>1\<close> of the catalog: there the second term is the speed of
  \<open>p\<close> and the speed is 14.496694 degrees per hour.
\<close>

theorem C1_speed_witness:
  "base_table ! 6 = (''L'' @ sub2, [2, - 1, 2, - 1, 0, 180], [2, - 2, 0, 0, 0, - 1, 0], 215)
   \<and> (\<exists>c t sp. Basic (''L'' @ sub2) [2, - 1, 2, - 1, 0, 180] [2, - 2, 0, 0, 0, - 1, 0] 215
                  1970 1970 1900 = Some c
        \<and> startYear 1900 = Some t \<and> V_terms t 1 = Some sp
        \<and> sp ! p_index * [2, - 2, 0, 0, 0, - 1, 0] ! Q_index = 0
        \<and> c_speed c = vsum (vmul sp [2, - 1, 2, - 1, 0, 180]) / 876600
        \<and> 29.528478 < c_speed c \<and> c_speed c < 29.528479)
   \<and> (\<exists>c t sp. Basic ''M1'' [1, - 1, 1, 0, 0, - 90] [1, - 1, 0, 0, 1, 0, 0] 206
                  1970 1970 1900 = Some c
        \<and> startYear 1900 = Some t \<and> V_terms t 1 = Some sp
        \<and> sp ! p_index * [1, - 1, 0, 0, 1, 0, 0] ! Q_index \<noteq> 0
        \<and> c_speed c = (vsum (vmul sp [1, - 1, 1, 0, 0, - 90]) + sp ! p_index) / 876600
        \<and> 14.496693 < c_speed c \<and> c_speed c < 14.496694)"
proof -
  let ?V = "[2, - 1, 2, - 1, 0, 180] :: real list"
  let ?u = "[2, - 2, 0, 0, 0, - 1, 0] :: real list"
  let ?W = "[1, - 1, 1, 0, 0, - 90] :: real list"
  let ?w = "[1, - 1, 0, 0, 1, 0, 0] :: real list"
  have vy: "valid_years 1970 1970 1900" by (simp add: valid_years_def)
  have b: "base_table ! 6 = (''L'' @ sub2, ?V, ?u, 215)" by (simp add: base_table_def)
  note L = C1_speed [where fy = 1970 and ly = 1970 and e = 1900 and V = ?V and u = ?u
      and tag = 215 and n = "''L'' @ sub2"]
  obtain c where c: "Basic (''L'' @ sub2) ?V ?u 215 1970 1970 1900 = Some c"
    using L [THEN conjunct1] vy by (auto simp: numVterms_def numuterms_def known_tags_def)
  have six: "6 < numCompoundBases" by (simp add: numCompoundBases_def)
  have "case base_table ! 6 of (bn, bV, bu, bt) \<Rightarrow>
           bu ! Q_index = 0
           \<and> (\<forall>bc. Basic bn bV bu bt 1970 1970 1900 = Some bc \<longrightarrow>
                 (\<exists>t sp. startYear 1900 = Some t \<and> V_terms t 1 = Some sp
                    \<and> sp ! p_index * bu ! Q_index = 0
                    \<and> c_speed bc = vsum (vmul sp bV) / 876600))"
    by (rule L [THEN conjunct2, THEN conjunct2, THEN spec, THEN mp, OF six])
  then obtain t sp where t: "startYear 1900 = Some t" and sp: "V_terms t 1 = Some sp"
    and z: "sp ! p_index * ?u ! Q_index = 0"
    and s: "c_speed c = vsum (vmul sp ?V) / 876600"
    unfolding b using c by auto
  note spv = speeds_1900 [OF t sp]
  have n1: "29.528478 < c_speed c \<and> c_speed c < 29.528479"
    unfolding s spv
    by (simp add: vsum_def vmul_def vadd_def vscale_def V_coeff1_def V_coeff2_def V_coeff3_def)
  note M = C1_speed [where fy = 1970 and ly = 1970 and e = 1900 and V = ?W and u = ?w
      and tag = 206 and n = "''M1''"]
  obtain d where d: "Basic ''M1'' ?W ?w 206 1970 1970 1900 = Some d"
    using M [THEN conjunct1] vy by (auto simp: numVterms_def numuterms_def known_tags_def)
  from M [where c = d, THEN conjunct2, THEN conjunct1] d
  obtain t' sp' where t': "startYear 1900 = Some t'" and sp': "V_terms t' 1 = Some sp'"
    and s': "c_speed d = (vsum (vmul sp' ?W) + sp' ! p_index * ?w ! Q_index) / 876600"
    and z': "sp' ! p_index * ?w ! Q_index = 0 \<longleftrightarrow> ?w ! Q_index = 0"
    by blast
  have tt: "t' = t" using t t' by simp
  have ss: "sp' = sp" using sp sp' tt by simp
  have q1: "?w ! Q_index = 1" by (simp add: Q_index_def)
  have nz: "sp ! p_index * ?w ! Q_index \<noteq> 0" using z' q1 ss by simp
  have s2: "c_speed d = (vsum (vmul sp ?W) + sp ! p_index) / 876600"
    using s' ss q1 by simp
  have n2: "14.496693 < c_speed d \<and> c_speed d < 14.496694"
    unfolding s2 spv
    by (simp add: vsum_def vmul_def vadd_def vscale_def V_coeff1_def V_coeff2_def V_coeff3_def
        p_index_def)
  show ?thesis using b c t sp z s n1 d nz s2 n2 by blast
qed

section \<open>C2: a Compound is the weighted sum and product of its parts\<close>

text \<open>
  C2.  Let the cache satisfy its invariant and let a Compound construction over
  \<open>[firstYear, lastYear]\<close> complete.  Then the thirteen base constituents \<open>ts\<close> are the
  Basic constituents of the table, the speed is the sum of the base speeds weighted
  by the coefficients, every \<open>V\<^sub>o+u\<close> element is the weighted sum of the bases'
  elements, and every \<open>f\<close> element is the product of the bases' node factors raised
  to the absolute values of the coefficients.  When the coefficient vector is 1 at
  the \<open>K\<^sub>1\<close> and \<open>O\<^sub>1\<close> positions and 0 elsewhere, the speed is the sum of the \<open>K\<^sub>1\<close>
  and \<open>O\<^sub>1\<close> speeds, the \<open>V\<^sub>o+u\<close> series is the element-wise sum and the \<open>f\<close> series the
  element-wise product of theirs.
\<close>

theorem C2_compound_algebra:
  assumes "cache_inv cache" and "Compound cache name_in co fy ly e = Some (c, cache')"
  shows "\<exists>ts. rebuild_terms fy ly e = Some ts
     \<and> (\<forall>i<numCompoundBases. base_Basic fy ly e (base_table ! i) = Some (ts ! i))
     \<and> c_speed c = sum_list (map (\<lambda>i. c_speed (ts ! i) * co ! i) [0 ..< numCompoundBases])
     \<and> (\<forall>k<ly - fy + 1.
           c_Vpu c ! k = sum_list (map (\<lambda>i. c_Vpu (ts ! i) ! k * co ! i) [0 ..< numCompoundBases])
         \<and> c_f c ! k
             = prod_list (map (\<lambda>i. pow_d (c_f (ts ! i) ! k) \<bar>co ! i\<bar>) [0 ..< numCompoundBases]))
     \<and> (co = (replicate numCompoundBases 0)[O1_index := 1, K1_index := 1] \<longrightarrow>
           c_speed c = c_speed (ts ! K1_index) + c_speed (ts ! O1_index)
         \<and> c_Vpu c = vadd (c_Vpu (ts ! K1_index)) (c_Vpu (ts ! O1_index))
         \<and> c_f c = vmul (c_f (ts ! K1_index)) (c_f (ts ! O1_index)))"
proof -
  from Compound_formula [OF assms] obtain ts where ts: "rebuild_terms fy ly e = Some ts"
    and b: "\<forall>i<numCompoundBases. base_Basic fy ly e (base_table ! i) = Some (ts ! i)"
    and l: "\<forall>i<numCompoundBases. length (c_Vpu (ts ! i)) = ly - fy + 1
           \<and> length (c_f (ts ! i)) = ly - fy + 1"
    and lc: "length (c_Vpu c) = ly - fy + 1" "length (c_f c) = ly - fy + 1"
    and s: "c_speed c = sum_list (map (\<lambda>i. c_speed (ts ! i) * co ! i) [0 ..< numCompoundBases])"
    and e: "\<forall>k<ly - fy + 1.
           c_Vpu c ! k = sum_list (map (\<lambda>i. c_Vpu (ts ! i) ! k * co ! i) [0 ..< numCompoundBases])
         \<and> c_f c ! k
             = prod_list (map (\<lambda>i. pow_d (c_f (ts ! i) ! k) \<bar>co ! i\<bar>) [0 ..< numCompoundBases])"
    by blast
  have special: "c_speed c = c_speed (ts ! K1_index) + c_speed (ts ! O1_index)
         \<and> c_Vpu c = vadd (c_Vpu (ts ! K1_index)) (c_Vpu (ts ! O1_index))
         \<and> c_f c = vmul (c_f (ts ! K1_index)) (c_f (ts ! O1_index))"
    if co: "co = (replicate numCompoundBases 0)[O1_index := 1, K1_index := 1]"
  proof -
    have cov: "co = [1, 1, 0, 0, 0, 0, 0, 0, 0, 0, 0, 0, 0]"
      unfolding co by (simp add: numCompoundBases_def O1_index_def K1_index_def eval_nat_numeral)
    have lK: "length (c_Vpu (ts ! K1_index)) = ly - fy + 1"
      "length (c_f (ts ! K1_index)) = ly - fy + 1"
      and lO: "length (c_Vpu (ts ! O1_index)) = ly - fy + 1"
      "length (c_f (ts ! O1_index)) = ly - fy + 1"
      using l by (simp_all add: K1_index_def O1_index_def numCompoundBases_def)
    have sp: "c_speed c = c_speed (ts ! K1_index) + c_speed (ts ! O1_index)"
      unfolding s upt_numCompoundBases cov by (simp add: K1_index_def O1_index_def)
    have v: "c_Vpu c = vadd (c_Vpu (ts ! K1_index)) (c_Vpu (ts ! O1_index))"
    proof (rule nth_equalityI)
      show "length (c_Vpu c) = length (vadd (c_Vpu (ts ! K1_index)) (c_Vpu (ts ! O1_index)))"
        using lc lK lO by (simp add: vadd_def)
      fix k assume "k < length (c_Vpu c)"
      then have k: "k < ly - fy + 1" using lc by simp
      then have "c_Vpu c ! k = c_Vpu (ts ! K1_index) ! k + c_Vpu (ts ! O1_index) ! k"
        using e unfolding upt_numCompoundBases cov by (simp add: K1_index_def O1_index_def)
      then show "c_Vpu c ! k = vadd (c_Vpu (ts ! K1_index)) (c_Vpu (ts ! O1_index)) ! k"
        using k lK lO by (simp add: vadd_def)
    qed
    have f: "c_f c = vmul (c_f (ts ! K1_index)) (c_f (ts ! O1_index))"
    proof (rule nth_equalityI)
      show "length (c_f c) = length (vmul (c_f (ts ! K1_index)) (c_f (ts ! O1_index)))"
        using lc lK lO by (simp add: vmul_def)
      fix k assume "k < length (c_f c)"
      then have k: "k < ly - fy + 1" using lc by simp
      then have "c_f c ! k = c_f (ts ! K1_index) ! k * c_f (ts ! O1_index) ! k"
        using e unfolding upt_numCompoundBases cov
        by (simp add: K1_index_def O1_index_def pow_d_zero pow_d_one)
      then show "c_f c ! k = vmul (c_f (ts ! K1_index)) (c_f (ts ! O1_index)) ! k"
        using k lK lO by (simp add: vmul_def)
    qed
    show ?thesis using sp v f by simp
  qed
  show ?thesis using ts b s e special by blast
qed

theorem C2_compound_algebra_witness:
  "\<exists>c cache' cK cO.
      Compound Cache_initial ''K1O1'' ((replicate numCompoundBases 0)[O1_index := 1, K1_index := 1])
        1970 1971 1900 = Some (c, cache')
    \<and> base_Basic 1970 1971 1900 (base_table ! K1_index) = Some cK
    \<and> base_Basic 1970 1971 1900 (base_table ! O1_index) = Some cO
    \<and> c_speed c = c_speed cK + c_speed cO
    \<and> c_Vpu c = vadd (c_Vpu cK) (c_Vpu cO)
    \<and> c_f c = vmul (c_f cK) (c_f cO)"
proof -
  let ?co = "(replicate numCompoundBases 0)[O1_index := 1, K1_index := 1] :: real list"
  have vy: "valid_years 1970 1971 1900" by (simp add: valid_years_def)
  obtain c cache' where c: "Compound Cache_initial ''K1O1'' ?co 1970 1971 1900 = Some (c, cache')"
    using Compound_total [OF cache_inv_initial vy, where co = ?co and n = "''K1O1''"] by auto
  from C2_compound_algebra [OF cache_inv_initial c] obtain ts where
    b: "\<forall>i<numCompoundBases. base_Basic 1970 1971 1900 (base_table ! i) = Some (ts ! i)"
    and s: "c_speed c = c_speed (ts ! K1_index) + c_speed (ts ! O1_index)
         \<and> c_Vpu c = vadd (c_Vpu (ts ! K1_index)) (c_Vpu (ts ! O1_index))
         \<and> c_f c = vmul (c_f (ts ! K1_index)) (c_f (ts ! O1_index))"
    by blast
  have "base_Basic 1970 1971 1900 (base_table ! K1_index) = Some (ts ! K1_index)"
    "base_Basic 1970 1971 1900 (base_table ! O1_index) = Some (ts ! O1_index)"
    using b by (simp_all add: K1_index_def O1_index_def numCompoundBases_def)
  then show ?thesis using c s by blast
qed

section \<open>C6: the two series have the length of the span of years\<close>

text \<open>
  C6.  A constituent produced by the Basic, Doodson or Compound constructor (the
  assertions demand \<open>firstYear \<le> lastYear\<close>) has a \<open>V\<^sub>o+u\<close> series and an \<open>f\<close> series of
  length \<open>lastYear - firstYear + 1\<close>.  The two share the year axis: for Basic and
  Doodson, element \<open>k\<close> of both series is what the loop body computes for the year
  \<open>firstYear + k\<close>.
\<close>

theorem C6_series_lengths:
  "(Basic n V u tag fy ly e = Some c \<longrightarrow>
      fy \<le> ly \<and> length (c_Vpu c) = ly - fy + 1 \<and> length (c_f c) = ly - fy + 1
      \<and> (\<forall>k<ly - fy + 1. Basic_year V u tag (fy + k) = Some (c_Vpu c ! k, c_f c ! k)))
   \<and> (Doodson n V sats fy ly e = Some c \<longrightarrow>
      fy \<le> ly \<and> length (c_Vpu c) = ly - fy + 1 \<and> length (c_f c) = ly - fy + 1
      \<and> (\<forall>k<ly - fy + 1. Doodson_year V sats (fy + k) = Some (c_Vpu c ! k, c_f c ! k)))
   \<and> (Compound cache n co fy ly e = Some (c, cache') \<longrightarrow>
      fy \<le> ly \<and> length (c_Vpu c) = ly - fy + 1 \<and> length (c_f c) = ly - fy + 1)"
proof (intro conjI impI)
  assume b: "Basic n V u tag fy ly e = Some c"
  show "fy \<le> ly" using Basic_Some [OF b] by (auto simp: valid_years_def)
  show "length (c_Vpu c) = ly - fy + 1" "length (c_f c) = ly - fy + 1"
    using Basic_series(1,2) [OF b] by simp_all
  show "\<forall>k<ly - fy + 1. Basic_year V u tag (fy + k) = Some (c_Vpu c ! k, c_f c ! k)"
    using Basic_series(3) [OF b] by blast
next
  assume d: "Doodson n V sats fy ly e = Some c"
  show "fy \<le> ly" using Doodson_Some [OF d] by (auto simp: valid_years_def)
  show "length (c_Vpu c) = ly - fy + 1" "length (c_f c) = ly - fy + 1"
    using Doodson_series(1,2) [OF d] by simp_all
  show "\<forall>k<ly - fy + 1. Doodson_year V sats (fy + k) = Some (c_Vpu c ! k, c_f c ! k)"
    using Doodson_series(3) [OF d] by blast
next
  assume c: "Compound cache n co fy ly e = Some (c, cache')"
  show "fy \<le> ly" using c by (auto simp: Compound_def split: if_splits)
  show "length (c_Vpu c) = ly - fy + 1" "length (c_f c) = ly - fy + 1"
    using Compound_series [OF c] by simp_all
qed

theorem C6_series_lengths_witness:
  "\<exists>cb cd cc cache'.
      Basic ''M2'' [2, - 2, 2, 0, 0, 0] [2, - 2, 0, 0, 0, 0, 0] 78 1970 1972 1900 = Some cb
    \<and> length (c_Vpu cb) = 3 \<and> length (c_f cb) = 3
    \<and> Doodson ''D'' [2, - 2, 2, 0, 0, 0]
         [\<lparr>Dp = 0, DN = - 1, Dp1 = 0, alpha = 180, r_ratio = 0.0373\<rparr>] 1970 1972 1900 = Some cd
    \<and> length (c_Vpu cd) = 3 \<and> length (c_f cd) = 3
    \<and> Compound Cache_initial ''C'' (replicate numCompoundBases 0) 1970 1972 1900
         = Some (cc, cache')
    \<and> length (c_Vpu cc) = 3 \<and> length (c_f cc) = 3"
proof -
  let ?V = "[2, - 2, 2, 0, 0, 0] :: real list"
  let ?u = "[2, - 2, 0, 0, 0, 0, 0] :: real list"
  let ?s = "[\<lparr>Dp = 0, DN = - 1, Dp1 = 0, alpha = 180, r_ratio = 0.0373\<rparr>]"
  have vy: "valid_years 1970 1972 1900" by (simp add: valid_years_def)
  obtain cb where cb: "Basic ''M2'' ?V ?u 78 1970 1972 1900 = Some cb"
    using Basic_total [OF vy, of ?V ?u 78]
    by (auto simp: numVterms_def numuterms_def known_tags_def)
  obtain cd where cd: "Doodson ''D'' ?V ?s 1970 1972 1900 = Some cd"
    using Doodson_total [OF vy, of ?V] by (auto simp: numVterms_def)
  obtain cc cache' where
    cc: "Compound Cache_initial ''C'' (replicate numCompoundBases 0) 1970 1972 1900
           = Some (cc, cache')"
    using Compound_total [OF cache_inv_initial vy, where co = "replicate numCompoundBases 0"
        and n = "''C''"] by auto
  have "length (c_Vpu cb) = 3 \<and> length (c_f cb) = 3"
    using C6_series_lengths [where n = "''M2''" and V = ?V and u = ?u and tag = 78
        and fy = 1970 and ly = 1972 and e = 1900 and c = cb] cb by simp
  moreover have "length (c_Vpu cd) = 3 \<and> length (c_f cd) = 3"
    using C6_series_lengths [where n = "''D''" and V = ?V and sats = ?s
        and fy = 1970 and ly = 1972 and e = 1900 and c = cd] cd by simp
  moreover have "length (c_Vpu cc) = 3 \<and> length (c_f cc) = 3"
    using C6_series_lengths [where n = "''C''" and cache = Cache_initial
        and co = "replicate numCompoundBases 0" and cache' = cache'
        and fy = 1970 and ly = 1972 and e = 1900 and c = cc] cc by simp
  ultimately show ?thesis using cb cd cc by blast
qed

section \<open>C10: a zero coefficient contributes nothing\<close>



section \<open>C8: normalize and snormalize\<close>




section \<open>C9: a line of two tokens\<close>

text \<open>
  C9.  Let the loop read the line \<open>line\<close>, made of a name and a kind token that are
  separated by white space, with optional white space before the name, and not
  starting with \<open>#\<close>.  If nothing follows the kind token the loop returns the number
  of this line, whatever the kind is: the extraction of the kind reaches the end of
  the line and the stream is no longer \<open>good\<close>.  If white space follows and the kind
  is \<open>Compound\<close>, the line is a valid record whose thirteen coefficients are 0: its
  constituent has speed 0, \<open>V\<^sub>o+u\<close> 0 and \<open>f\<close> 1 throughout, and the loop goes on with
  the next line (for valid years, the cache satisfying its invariant).
\<close>

theorem C9_two_token_line:
  assumes "good is" and "getline is [] = (is1, line)" and "\<not> fail is1"
    and "line = ws1 @ name @ ws2 @ kind @ ws3"
    and "\<forall>c\<in>set ws1. isspace c" and "\<forall>c\<in>set ws2. isspace c" and "\<forall>c\<in>set ws3. isspace c"
    and "ws2 \<noteq> []"
    and "name \<noteq> []" and "\<forall>c\<in>set name. \<not> isspace c"
    and "kind \<noteq> []" and "\<forall>c\<in>set kind. \<not> isspace c"
    and "hd line \<noteq> CHR ''#''"
  shows "(ws3 = [] \<longrightarrow> main_loop fy ly e is n cs cache = Returned (n + 1) cs cache)
    \<and> (ws3 \<noteq> [] \<and> kind = ''Compound'' \<and> cache_inv cache \<and> valid_years fy ly e \<longrightarrow>
         (\<exists>c cache'. Compound cache name (replicate numCompoundBases 0) fy ly e = Some (c, cache')
            \<and> c_speed c = 0 \<and> c_Vpu c = replicate (ly - fy + 1) 0
            \<and> c_f c = replicate (ly - fy + 1) 1
            \<and> main_loop fy ly e is n cs cache = main_loop fy ly e is1 (n + 1) (cs @ [c]) cache'))"
proof (intro conjI impI)
  have ne: "line \<noteq> []" using assms(4,9) by simp
  note nk = read_name_kind [OF assms(4,5,6,7,8,9,10,11,12)]
  note step = main_loop_step [OF assms(1,2), of fy ly e n cs cache]
  {
    assume w: "ws3 = []"
    have "\<not> good ((istringstream ws3)\<lparr>eofbit := (ws3 = [])\<rparr>)"
      using w by (simp add: good_def)
    then have "read_record is1 (n + 1) line = Malformed (n + 1)"
      unfolding read_record_def nk(1) prod.case nk(2) by simp
    then show "main_loop fy ly e is n cs cache = Returned (n + 1) cs cache"
      using step assms(3,13) ne by simp
  }
  {
    assume a: "ws3 \<noteq> [] \<and> kind = ''Compound'' \<and> cache_inv cache \<and> valid_years fy ly e"
    then have w: "ws3 \<noteq> []" and k: "kind = ''Compound''" by simp_all
    have iss: "(istringstream ws3)\<lparr>eofbit := (ws3 = [])\<rparr> = istringstream ws3"
      using w by (simp add: istringstream_def)
    have nk2: "extract_string (istringstream (ws2 @ kind @ ws3)) [] = (istringstream ws3, kind)"
      by (simp only: nk(2) iss)
    have g: "good (istringstream ws3)" by (simp add: good_def istringstream_def)
    have "read_record is1 (n + 1) line = read_Compound is1 (n + 1) name (istringstream ws3)"
      unfolding read_record_def nk(1) prod.case nk2 using g k by simp
    then have "read_record is1 (n + 1) line
          = Parsed is1 (n + 1) (CompoundRec name (replicate numCompoundBases 0))"
      by (simp add: read_Compound_def compound_loop_blank [OF assms(7)])
    moreover obtain c cache' where
      c: "Compound cache name (replicate numCompoundBases 0) fy ly e = Some (c, cache')"
      and z: "c_speed c = 0" "c_Vpu c = replicate (ly - fy + 1) 0"
        "c_f c = replicate (ly - fy + 1) 1"
      using Compound_zero [of cache fy ly e name] a by blast
    ultimately have
      "main_loop fy ly e is n cs cache = main_loop fy ly e is1 (n + 1) (cs @ [c]) cache'"
      using step assms(3,13) ne by (simp add: construct_def)
    then show "\<exists>c cache'. Compound cache name (replicate numCompoundBases 0) fy ly e
            = Some (c, cache')
          \<and> c_speed c = 0 \<and> c_Vpu c = replicate (ly - fy + 1) 0
          \<and> c_f c = replicate (ly - fy + 1) 1
          \<and> main_loop fy ly e is n cs cache = main_loop fy ly e is1 (n + 1) (cs @ [c]) cache'"
      using c z by blast
  }
qed

theorem C9_two_token_line_witness:
  "parseLegacyInput (istringstream ''X Compound'') 1970 1970 1900 [] Cache_initial
     = Returned 1 [] Cache_initial
   \<and> parseLegacyInput (istringstream ''M2 Basic'') 1970 1970 1900 [] Cache_initial
     = Returned 1 [] Cache_initial
   \<and> (\<exists>c cache'. Compound Cache_initial ''X'' (replicate numCompoundBases 0) 1970 1970 1900
           = Some (c, cache')
        \<and> c_speed c = 0 \<and> c_Vpu c = [0] \<and> c_f c = [1]
        \<and> parseLegacyInput (istringstream ''X Compound '') 1970 1970 1900 [] Cache_initial
           = Returned 0 [c] cache')"
proof -
  let ?e = "(istringstream [])\<lparr>eofbit := True\<rparr>"
  have g: "good (istringstream x)" for x by (simp add: good_def istringstream_def)
  have nf: "\<not> fail ?e" by (simp add: fail_def istringstream_def)
  have ng: "\<not> good ?e" by (simp add: good_def)
  have sp: "\<forall>c\<in>set '' ''. isspace c" "\<forall>c\<in>set ''''. isspace c" by (simp_all add: isspace_def)
  have t: "\<forall>c\<in>set ''X''. \<not> isspace c" "\<forall>c\<in>set ''M2''. \<not> isspace c"
    "\<forall>c\<in>set ''Compound''. \<not> isspace c" "\<forall>c\<in>set ''Basic''. \<not> isspace c"
    by (simp_all add: isspace_def)
  have 1: "main_loop 1970 1970 1900 (istringstream ''X Compound'') 0 [] Cache_initial
           = Returned (0 + 1) [] Cache_initial"
    using C9_two_token_line [OF g getline_last_line nf, where ?ws1.0 = "[]" and name = "''X''"
        and ?ws2.0 = "'' ''" and kind = "''Compound''" and ?ws3.0 = "[]"
        and n = 0 and cs = "[]" and cache = Cache_initial and fy = 1970 and ly = 1970
        and e = 1900] sp t
    by simp
  have 2: "main_loop 1970 1970 1900 (istringstream ''M2 Basic'') 0 [] Cache_initial
           = Returned (0 + 1) [] Cache_initial"
    using C9_two_token_line [OF g getline_last_line nf, where ?ws1.0 = "[]" and name = "''M2''"
        and ?ws2.0 = "'' ''" and kind = "''Basic''" and ?ws3.0 = "[]"
        and n = 0 and cs = "[]" and cache = Cache_initial and fy = 1970 and ly = 1970
        and e = 1900] sp t
    by simp
  have vy: "valid_years 1970 1970 1900" by (simp add: valid_years_def)
  have "\<exists>c cache'. Compound Cache_initial ''X'' (replicate numCompoundBases 0) 1970 1970 1900
           = Some (c, cache')
        \<and> c_speed c = 0 \<and> c_Vpu c = replicate (1970 - 1970 + 1) 0
        \<and> c_f c = replicate (1970 - 1970 + 1) 1
        \<and> main_loop 1970 1970 1900 (istringstream ''X Compound '') 0 [] Cache_initial
           = main_loop 1970 1970 1900 ?e (0 + 1) ([] @ [c]) cache'"
    using C9_two_token_line [OF g getline_last_line nf, where ?ws1.0 = "[]" and name = "''X''"
        and ?ws2.0 = "'' ''" and kind = "''Compound''" and ?ws3.0 = "'' ''"
        and n = 0 and cs = "[]" and cache = Cache_initial and fy = 1970 and ly = 1970
        and e = 1900] sp t cache_inv_initial vy
    by simp
  then obtain c cache' where
    c: "Compound Cache_initial ''X'' (replicate numCompoundBases 0) 1970 1970 1900
           = Some (c, cache')"
    and z: "c_speed c = 0" "c_Vpu c = [0]" "c_f c = [1]"
    and m: "main_loop 1970 1970 1900 (istringstream ''X Compound '') 0 [] Cache_initial
           = main_loop 1970 1970 1900 ?e (0 + 1) ([] @ [c]) cache'"
    by auto
  have 3: "parseLegacyInput (istringstream ''X Compound '') 1970 1970 1900 [] Cache_initial
           = Returned 0 [c] cache'"
    using m main_loop_not_good [OF ng] g by (simp add: parseLegacyInput_def)
  show ?thesis using 1 2 3 c z g by (auto simp: parseLegacyInput_def)
qed

section \<open>C7: the tags of the node-factor dispatch\<close>




section \<open>C5: satellites marked with R\<close>




end
